theory Spec2Isabelle
  imports Complex_Main
begin

section \<open>Device memory, worker threads and kernel launches\<close>

text \<open>
  A device buffer (\<^verbatim>\<open>float *\<close>) is the memory that starts at the pointer: a total
  function from element offsets to values. Distinct buffer arguments are distinct,
  non-overlapping allocations, as they are at every call site of the program.
  Offsets and sizes are natural numbers: the \<^verbatim>\<open>int\<close> index arithmetic of
  the source is read in the range where it does not overflow.
\<close>

type_synonym 'a buf = "nat \<Rightarrow> 'a"

text \<open>The built-in variables a worker thread sees.\<close>

record thread_id =
  blockIdx_x :: nat
  blockIdx_y :: nat
  blockDim_x :: nat
  blockDim_y :: nat
  threadIdx_x :: nat
  threadIdx_y :: nat

definition mk_thread :: "nat \<times> nat \<Rightarrow> nat \<times> nat \<times> nat \<times> nat \<Rightarrow> thread_id" where
  "mk_thread b p = (case p of (by, bx, ty, tx) \<Rightarrow>
     \<lparr>blockIdx_x = bx, blockIdx_y = by, blockDim_x = fst b, blockDim_y = snd b,
      threadIdx_x = tx, threadIdx_y = ty\<rparr>)"

text \<open>
  The threads of a launch \<^verbatim>\<open>kernel<<<grid, block>>>\<close>, with \<open>grid = (x, y)\<close> blocks
  of \<open>block = (x, y)\<close> threads each.
\<close>

definition grid_threads :: "nat \<times> nat \<Rightarrow> nat \<times> nat \<Rightarrow> thread_id list" where
  "grid_threads g b =
     map (mk_thread b)
       (List.product [0..<snd g] (List.product [0..<fst g]
          (List.product [0..<snd b] [0..<fst b])))"

text \<open>
  A launch runs the kernel body once per thread on the memory the kernel writes. The
  threads are run one after the other here, in the order of \<open>grid_threads\<close>. Every
  thread of the kernels of this program owns the cells it writes and reads, besides
  them, only buffers the launch does not write; \<open>launch_2d_any_order\<close> and
  \<open>launch_softmax_any_order\<close> below show that the result is the same in every other
  order.
\<close>

definition launch :: "nat \<times> nat \<Rightarrow> nat \<times> nat \<Rightarrow> (thread_id \<Rightarrow> 's \<Rightarrow> 's) \<Rightarrow> 's \<Rightarrow> 's" where
  "launch g b body s = fold body (grid_threads g b) s"

section \<open>The numeric kernels\<close>

text \<open>
  A kernel is a function of the thread that runs it, of the buffers it reads and of
  its scalar arguments, from the buffer it assigns to to that buffer after the thread
  has run. The matrix kernels, the bias addition and the gradient product use the
  arithmetic of their element type through \<open>0\<close>, \<open>+\<close> and \<open>*\<close> only, and no law
  of arithmetic is assumed of them: what is proved of them holds for every
  interpretation of these operations. The kernels that call \<^verbatim>\<open>tanhf\<close>,
  \<^verbatim>\<open>expf\<close>, \<^verbatim>\<open>logf\<close> or \<^verbatim>\<open>fmaxf\<close> are read over the real numbers:
  every \<^verbatim>\<open>float\<close> is a finite value, a decimal constant is the number it
  writes, and the operations are exact. The parameter \<^verbatim>\<open>size\<close> of the source is
  \<open>size'\<close> here, \<open>size\<close> being a constant of the library.
\<close>

definition INPUT_SIZE :: nat where "INPUT_SIZE = 784"
definition HIDDEN_SIZE :: nat where "HIDDEN_SIZE = 4096"
definition OUTPUT_SIZE :: nat where "OUTPUT_SIZE = 10"
definition BATCH_SIZE :: nat where "BATCH_SIZE = 32"

record NeuralNetwork =
  weights1 :: "real buf"
  weights2 :: "real buf"
  bias1 :: "real buf"
  bias2 :: "real buf"
  grad_weights1 :: "real buf"
  grad_weights2 :: "real buf"
  grad_bias1 :: "real buf"
  grad_bias2 :: "real buf"

definition matmul_a_b_kernel ::
  "thread_id \<Rightarrow> 'a buf \<Rightarrow> 'a buf \<Rightarrow> 'a buf \<Rightarrow> nat \<Rightarrow> nat \<Rightarrow> nat \<Rightarrow> ('a::{zero,plus,times}) buf" where
  "matmul_a_b_kernel t A B C m n k =
     (let row = blockIdx_y t * blockDim_y t + threadIdx_y t;
          col = blockIdx_x t * blockDim_x t + threadIdx_x t
      in if row < m \<and> col < k
         then C(row * k + col :=
                  fold (\<lambda>i sum. sum + A (row * n + i) * B (i * k + col)) [0..<n] 0)
         else C)"

definition matmul_a_bt_kernel ::
  "thread_id \<Rightarrow> 'a buf \<Rightarrow> 'a buf \<Rightarrow> 'a buf \<Rightarrow> nat \<Rightarrow> nat \<Rightarrow> nat \<Rightarrow> ('a::{zero,plus,times}) buf" where
  "matmul_a_bt_kernel t A B C m n k =
     (let row = blockIdx_y t * blockDim_y t + threadIdx_y t;
          col = blockIdx_x t * blockDim_x t + threadIdx_x t
      in if row < m \<and> col < k
         then C(row * k + col :=
                  fold (\<lambda>i sum. sum + A (row * n + i) * B (col * n + i)) [0..<n] 0)
         else C)"

definition matmul_at_b_kernel ::
  "thread_id \<Rightarrow> 'a buf \<Rightarrow> 'a buf \<Rightarrow> 'a buf \<Rightarrow> nat \<Rightarrow> nat \<Rightarrow> nat \<Rightarrow> ('a::{zero,plus,times}) buf" where
  "matmul_at_b_kernel t A B C m n k =
     (let row = blockIdx_y t * blockDim_y t + threadIdx_y t;
          col = blockIdx_x t * blockDim_x t + threadIdx_x t
      in if row < n \<and> col < k
         then C(row * k + col :=
                  fold (\<lambda>i sum. sum + A (i * n + row) * B (i * k + col)) [0..<m] 0)
         else C)"

definition gelu_kernel :: "thread_id \<Rightarrow> real buf \<Rightarrow> nat \<Rightarrow> real buf" where
  "gelu_kernel t x size' =
     (let idx = blockIdx_x t * blockDim_x t + threadIdx_x t
      in if idx < size'
         then let x_val = x idx;
                  cdf = 0.5 * (1 + tanh (0.7978845608 * (x_val + 0.044715 * x_val * x_val * x_val)))
              in x(idx := x_val * cdf)
         else x)"

text \<open>
  The derivative kernel has two buffer arguments; it returns both, so that what it
  does to its input is part of the model.
\<close>

definition dgelu_kernel :: "thread_id \<Rightarrow> real buf \<Rightarrow> real buf \<Rightarrow> nat \<Rightarrow> real buf \<times> real buf" where
  "dgelu_kernel t x d_gelu_out size' =
     (let idx = blockIdx_x t * blockDim_x t + threadIdx_x t
      in if idx < size'
         then let x_val = x idx;
                  tanh_term = tanh (0.7978845608 * (x_val + 0.044715 * x_val * x_val * x_val));
                  sech_term = 1 / cosh (0.7978845608 * (x_val + 0.044715 * x_val * x_val * x_val));
                  cdf = 0.5 * (1 + tanh_term);
                  pdf = 0.5 * sqrt (2 / pi) * exp (- 0.5 * x_val * x_val)
              in (x, d_gelu_out(idx := cdf + x_val * pdf))
         else (x, d_gelu_out))"

text \<open>
  The three loops of the softmax kernel, over the row of block \<open>b\<close>: the maximum
  (from the second entry on, starting at the first), the exponentials written in
  place together with their running sum, and the division with the floor.
\<close>

definition softmax_kernel :: "thread_id \<Rightarrow> real buf \<Rightarrow> nat \<Rightarrow> nat \<Rightarrow> real buf" where
  "softmax_kernel t x batch_size size' =
     (let b = blockIdx_x t
      in if b < batch_size
         then let max_val = fold (\<lambda>i max_val. max max_val (x (b * size' + i))) [1..<size'] (x (b * size'));
                  (x, sum) = fold (\<lambda>i (x, sum).
                               let x = x(b * size' + i := exp (x (b * size' + i) - max_val))
                               in (x, sum + x (b * size' + i))) [0..<size'] (x, 0)
              in fold (\<lambda>i x. x(b * size' + i := max (x (b * size' + i) / sum) (1 / 10 ^ 7))) [0..<size'] x
         else x)"

definition bias_add_kernel :: "thread_id \<Rightarrow> 'a buf \<Rightarrow> 'a buf \<Rightarrow> nat \<Rightarrow> nat \<Rightarrow> ('a::plus) buf" where
  "bias_add_kernel t x bias batch_size size' =
     (let idx = blockIdx_x t * blockDim_x t + threadIdx_x t;
          b = idx div size';
          i = idx mod size'
      in if b < batch_size \<and> i < size' then x(idx := x idx + bias i) else x)"

definition multiply_gradients_kernel :: "thread_id \<Rightarrow> 'a buf \<Rightarrow> 'a buf \<Rightarrow> nat \<Rightarrow> ('a::times) buf" where
  "multiply_gradients_kernel t grad1 grad2 size' =
     (let idx = blockIdx_x t * blockDim_x t + threadIdx_x t
      in if idx < size' then grad1(idx := grad1 idx * grad2 idx) else grad1)"

section \<open>The forward pipeline and the loss\<close>

text \<open>
  The six launches of \<^verbatim>\<open>forward\<close>, in the source's order and with its launch
  configurations; the function returns the two buffers it writes. Every launch is taken
  to succeed (the source exits otherwise), and the kernels of one stream run one after
  the other.
\<close>

definition forward ::
  "NeuralNetwork \<Rightarrow> real buf \<Rightarrow> real buf \<Rightarrow> real buf \<Rightarrow> nat \<Rightarrow> real buf \<times> real buf" where
  "forward nn d_input d_hidden d_output batch_size =
     (let block_size = (32, 32);
          grid_size = ((HIDDEN_SIZE + fst block_size - 1) div fst block_size,
                       (batch_size + snd block_size - 1) div snd block_size);
          d_hidden = launch grid_size block_size
            (\<lambda>t C. matmul_a_b_kernel t d_input (weights1 nn) C batch_size INPUT_SIZE HIDDEN_SIZE) d_hidden;
          d_hidden = launch ((batch_size * HIDDEN_SIZE + 255) div 256, 1) (256, 1)
            (\<lambda>t x. bias_add_kernel t x (bias1 nn) batch_size HIDDEN_SIZE) d_hidden;
          d_hidden = launch ((batch_size * HIDDEN_SIZE + 255) div 256, 1) (256, 1)
            (\<lambda>t x. gelu_kernel t x (batch_size * HIDDEN_SIZE)) d_hidden;
          grid_size = ((OUTPUT_SIZE + fst block_size - 1) div fst block_size,
                       (batch_size + snd block_size - 1) div snd block_size);
          d_output = launch grid_size block_size
            (\<lambda>t C. matmul_a_b_kernel t d_hidden (weights2 nn) C batch_size HIDDEN_SIZE OUTPUT_SIZE) d_output;
          d_output = launch ((batch_size * OUTPUT_SIZE + 255) div 256, 1) (256, 1)
            (\<lambda>t x. bias_add_kernel t x (bias2 nn) batch_size OUTPUT_SIZE) d_output;
          d_output = launch (batch_size, 1) (1, 1)
            (\<lambda>t x. softmax_kernel t x batch_size OUTPUT_SIZE) d_output
      in (d_hidden, d_output))"

text \<open>
  The buffers between the launches of \<^verbatim>\<open>forward\<close>, which the function overwrites in
  place: the hidden buffer after the first bias addition (the hidden pre-activations)
  and after the activation, and the output buffer after the second bias addition (the
  output logits), from the hidden buffer the activation left. \<open>forward_parts\<close> below
  relates them to what \<^verbatim>\<open>forward\<close> returns.
\<close>

definition hidden_pre :: "NeuralNetwork \<Rightarrow> real buf \<Rightarrow> real buf \<Rightarrow> nat \<Rightarrow> real buf" where
  "hidden_pre nn d_input d_hidden batch_size =
     launch ((batch_size * HIDDEN_SIZE + 255) div 256, 1) (256, 1)
       (\<lambda>t x. bias_add_kernel t x (bias1 nn) batch_size HIDDEN_SIZE)
       (launch ((HIDDEN_SIZE + 32 - 1) div 32, (batch_size + 32 - 1) div 32) (32, 32)
          (\<lambda>t C. matmul_a_b_kernel t d_input (weights1 nn) C batch_size INPUT_SIZE HIDDEN_SIZE)
          d_hidden)"

definition hidden_act :: "NeuralNetwork \<Rightarrow> real buf \<Rightarrow> real buf \<Rightarrow> nat \<Rightarrow> real buf" where
  "hidden_act nn d_input d_hidden batch_size =
     launch ((batch_size * HIDDEN_SIZE + 255) div 256, 1) (256, 1)
       (\<lambda>t x. gelu_kernel t x (batch_size * HIDDEN_SIZE))
       (hidden_pre nn d_input d_hidden batch_size)"

definition output_pre :: "NeuralNetwork \<Rightarrow> real buf \<Rightarrow> real buf \<Rightarrow> nat \<Rightarrow> real buf" where
  "output_pre nn d_hidden d_output batch_size =
     launch ((batch_size * OUTPUT_SIZE + 255) div 256, 1) (256, 1)
       (\<lambda>t x. bias_add_kernel t x (bias2 nn) batch_size OUTPUT_SIZE)
       (launch ((OUTPUT_SIZE + 32 - 1) div 32, (batch_size + 32 - 1) div 32) (32, 32)
          (\<lambda>t C. matmul_a_b_kernel t d_hidden (weights2 nn) C batch_size HIDDEN_SIZE OUTPUT_SIZE)
          d_output)"

text \<open>
  The loss runs on the host over the output batch and the \<^verbatim>\<open>int\<close> labels; the index
  \<^verbatim>\<open>b * OUTPUT_SIZE + labels[b]\<close> is an \<^verbatim>\<open>int\<close>.
\<close>

definition cross_entropy_loss :: "real buf \<Rightarrow> int buf \<Rightarrow> nat \<Rightarrow> real" where
  "cross_entropy_loss output labels batch_size =
     (let total_loss = fold (\<lambda>b total_loss.
            total_loss - ln (max (output (nat (int b * int OUTPUT_SIZE + labels b))) (1 / 10 ^ 7)))
          [0..<batch_size] 0
      in total_loss / real batch_size)"

section \<open>Rows of the softmax\<close>

text \<open>
  The launch of the softmax kernel as \<^verbatim>\<open>forward\<close> configures it: one block per
  row, one thread per block.
\<close>

definition launch_softmax :: "real buf \<Rightarrow> nat \<Rightarrow> nat \<Rightarrow> real buf" where
  "launch_softmax x batch_size size' =
     launch (batch_size, 1) (1, 1) (\<lambda>t x. softmax_kernel t x batch_size size') x"

text \<open>
  The value the first loop of the kernel leaves in \<^verbatim>\<open>max_val\<close> for row \<open>b\<close>, and the
  sum of the entries of row \<open>b\<close> of a buffer.
\<close>

definition row_max :: "real buf \<Rightarrow> nat \<Rightarrow> nat \<Rightarrow> real" where
  "row_max x b size' =
     fold (\<lambda>i max_val. max max_val (x (b * size' + i))) [1..<size'] (x (b * size'))"

definition row_sum :: "real buf \<Rightarrow> nat \<Rightarrow> nat \<Rightarrow> real" where
  "row_sum x b size' = (\<Sum>i<size'. x (b * size' + i))"

section \<open>Example inputs\<close>

text \<open>A row of logits with one entry far above the others.\<close>

definition spike_logits :: "real buf" where
  "spike_logits j = (if j = 0 then 0 else - (10 ^ 9))"

text \<open>
  Output batches that hold the same value everywhere, and labels that all name class
  \<open>0\<close>.
\<close>

definition twos_output :: "real buf" where
  "twos_output j = 2"

definition zero_labels :: "int buf" where
  "zero_labels b = 0"

definition ones_output :: "real buf" where
  "ones_output j = 1"

text \<open>A parameter set with zero biases.\<close>

definition example_network :: NeuralNetwork where
  "example_network =
     \<lparr>weights1 = (\<lambda>i. real i), weights2 = (\<lambda>i. 1 - real i),
      bias1 = (\<lambda>_. 0), bias2 = (\<lambda>_. 0),
      grad_weights1 = (\<lambda>_. 0), grad_weights2 = (\<lambda>_. 0),
      grad_bias1 = (\<lambda>_. 0), grad_bias2 = (\<lambda>_. 0)\<rparr>"

section \<open>The explicit transpose\<close>

text \<open>
  The transpose of a \<open>rows \<times> cols\<close> matrix in row-major flat addressing is the
  \<open>cols \<times> rows\<close> matrix that has at \<open>(c, r)\<close> what the matrix has at \<open>(r, c)\<close>; the
  memory behind the matrix is left as it is. The program has no such function: it is
  the transpose the specification compares the transposing kernels with.
\<close>

definition transpose_mat :: "'a buf \<Rightarrow> nat \<Rightarrow> nat \<Rightarrow> 'a buf" where
  "transpose_mat M rows cols =
     (\<lambda>j. if j < cols * rows then M ((j mod rows) * cols + j div rows) else M j)"

section \<open>Launches of write-disjoint threads\<close>

text \<open>
  A thread that owns the cells \<open>R\<close> (no other thread of the launch writes them, and
  what it leaves there depends on their old content only) leaves in them what it would
  have left had it run alone, wherever it stands in the schedule; a cell that no thread
  writes keeps its content.
\<close>

lemma fold_frame:
  assumes "\<And>t C. t \<in> set ts \<Longrightarrow> body t C j = C j"
  shows "fold body ts C j = C j"
  using assms by (induction ts arbitrary: C) simp_all

lemma fold_owner:
  assumes "distinct ts" and "t \<in> set ts"
    and others: "\<And>t' C j. t' \<in> set ts \<Longrightarrow> t' \<noteq> t \<Longrightarrow> j \<in> R \<Longrightarrow> body t' C j = C j"
    and own: "\<And>C C' j. (\<forall>i\<in>R. C i = C' i) \<Longrightarrow> j \<in> R \<Longrightarrow> body t C j = body t C' j"
    and "j \<in> R"
  shows "fold body ts C j = body t C j"
  using assms(1,2,3)
proof (induction ts arbitrary: C)
  case Nil
  then show ?case by simp
next
  case (Cons a ts)
  show ?case
  proof (cases "a = t")
    case True
    with Cons.prems(1) have "t \<notin> set ts" by simp
    then have "fold body ts (body t C) j = body t C j"
      using Cons.prems(3) \<open>j \<in> R\<close> by (intro fold_frame) (metis list.set_intros(2))
    with True show ?thesis by simp
  next
    case False
    with Cons.prems(2) have t: "t \<in> set ts" by simp
    have "fold body ts (body a C) j = body t (body a C) j"
      using Cons.prems(1) t Cons.prems(3) by (intro Cons.IH) simp_all
    also have "\<dots> = body t C j"
      using Cons.prems(3)[of a] False \<open>j \<in> R\<close> by (intro own) simp_all
    finally show ?thesis by simp
  qed
qed

section \<open>The threads of a grid\<close>

lemma set_grid_threads:
  "t \<in> set (grid_threads g b) \<longleftrightarrow>
     blockIdx_x t < fst g \<and> blockIdx_y t < snd g \<and>
     blockDim_x t = fst b \<and> blockDim_y t = snd b \<and>
     threadIdx_x t < fst b \<and> threadIdx_y t < snd b"
proof
  assume "t \<in> set (grid_threads g b)"
  then show "blockIdx_x t < fst g \<and> blockIdx_y t < snd g \<and>
     blockDim_x t = fst b \<and> blockDim_y t = snd b \<and>
     threadIdx_x t < fst b \<and> threadIdx_y t < snd b"
    by (auto simp: grid_threads_def mk_thread_def)
next
  assume a: "blockIdx_x t < fst g \<and> blockIdx_y t < snd g \<and>
     blockDim_x t = fst b \<and> blockDim_y t = snd b \<and>
     threadIdx_x t < fst b \<and> threadIdx_y t < snd b"
  have "t = mk_thread b (blockIdx_y t, blockIdx_x t, threadIdx_y t, threadIdx_x t)"
    using a by (simp add: mk_thread_def)
  moreover have "(blockIdx_y t, blockIdx_x t, threadIdx_y t, threadIdx_x t)
      \<in> set (List.product [0..<snd g] (List.product [0..<fst g]
          (List.product [0..<snd b] [0..<fst b])))"
    using a by simp
  ultimately show "t \<in> set (grid_threads g b)"
    unfolding grid_threads_def by (metis image_eqI set_map)
qed

lemma distinct_grid_threads: "distinct (grid_threads g b)"
  unfolding grid_threads_def
  by (intro iffD2[OF distinct_map] conjI distinct_product distinct_upt)
     (auto simp: inj_on_def mk_thread_def)

lemma div_mod_unique:
  fixes q r q' r' d :: nat
  assumes "q * d + r = q' * d + r'" "r < d" "r' < d"
  shows "q = q' \<and> r = r'"
proof -
  have "(q * d + r) div d = q" using \<open>r < d\<close> by simp
  moreover have "(q' * d + r') div d = q'" using \<open>r' < d\<close> by simp
  ultimately have "q = q'" using assms(1) by simp
  with assms(1) show ?thesis by simp
qed

lemma grid_index_unique:
  assumes "t \<in> set (grid_threads g b)" "t' \<in> set (grid_threads g b)"
    and "blockIdx_x t * blockDim_x t + threadIdx_x t = blockIdx_x t' * blockDim_x t' + threadIdx_x t'"
    and "blockIdx_y t * blockDim_y t + threadIdx_y t = blockIdx_y t' * blockDim_y t' + threadIdx_y t'"
  shows "t = t'"
proof -
  from assms(1,2) have d: "blockDim_x t = fst b" "blockDim_x t' = fst b"
    "blockDim_y t = snd b" "blockDim_y t' = snd b"
    "threadIdx_x t < fst b" "threadIdx_x t' < fst b" "threadIdx_y t < snd b" "threadIdx_y t' < snd b"
    by (simp_all add: set_grid_threads)
  have "blockIdx_x t = blockIdx_x t' \<and> threadIdx_x t = threadIdx_x t'"
    using assms(3) d by (intro div_mod_unique[of _ "fst b"]) simp_all
  moreover have "blockIdx_y t = blockIdx_y t' \<and> threadIdx_y t = threadIdx_y t'"
    using assms(4) d by (intro div_mod_unique[of _ "snd b"]) simp_all
  ultimately show ?thesis using d by simp
qed

lemma grid_covers:
  assumes "col < fst g * fst b" "row < snd g * snd b"
  shows "\<exists>t \<in> set (grid_threads g b).
           blockIdx_y t * blockDim_y t + threadIdx_y t = row \<and>
           blockIdx_x t * blockDim_x t + threadIdx_x t = col"
proof -
  from assms have pos: "0 < fst b" "0 < snd b" by (auto intro: gr0I)
  let ?t = "mk_thread b (row div snd b, col div fst b, row mod snd b, col mod fst b)"
  have "col div fst b < fst g" "row div snd b < snd g"
    using assms pos by (simp_all add: less_mult_imp_div_less)
  then have "?t \<in> set (grid_threads g b)"
    using pos by (simp add: set_grid_threads mk_thread_def)
  moreover have "blockIdx_y ?t * blockDim_y ?t + threadIdx_y ?t = row"
    "blockIdx_x ?t * blockDim_x ?t + threadIdx_x ?t = col"
    by (simp_all add: mk_thread_def)
  ultimately show ?thesis by blast
qed

text \<open>
  Kernels whose threads each assign to one cell, from the old content of that cell and
  from buffers the launch does not write.
\<close>

lemma fold_pointwise:
  assumes "distinct ts" "t \<in> set ts" "g t"
    and body: "\<And>t C. t \<in> set ts \<Longrightarrow> body t C = (if g t then C(w t := f t (C (w t))) else C)"
    and inj: "\<And>t'. t' \<in> set ts \<Longrightarrow> g t' \<Longrightarrow> w t' = w t \<Longrightarrow> t' = t"
  shows "fold body ts C (w t) = f t (C (w t))"
proof -
  have "fold body ts C (w t) = body t C (w t)"
  proof (rule fold_owner[where R = "{w t}"])
    fix t' C j assume "t' \<in> set ts" "t' \<noteq> t" "j \<in> {w t}"
    then show "body t' C j = C j" using inj[of t'] by (auto simp: body)
  next
    fix C C' :: "'b \<Rightarrow> 'c" and j assume "\<forall>i\<in>{w t}. C i = C' i" "j \<in> {w t}"
    then show "body t C j = body t C' j" using \<open>t \<in> set ts\<close> by (simp add: body)
  qed (use assms in simp_all)
  then show ?thesis using \<open>g t\<close> \<open>t \<in> set ts\<close> by (simp add: body)
qed

lemma fold_untouched:
  assumes body: "\<And>t C. t \<in> set ts \<Longrightarrow> body t C = (if g t then C(w t := f t (C (w t))) else C)"
    and "\<And>t. t \<in> set ts \<Longrightarrow> g t \<Longrightarrow> w t \<noteq> j"
  shows "fold body ts C j = C j"
  using assms(2) by (intro fold_frame) (auto simp: body)

lemma grid_index_bound:
  assumes "t \<in> set (grid_threads g b)"
  shows "blockIdx_x t * blockDim_x t + threadIdx_x t < fst g * fst b"
    and "blockIdx_y t * blockDim_y t + threadIdx_y t < snd g * snd b"
proof -
  from assms have d: "blockDim_x t = fst b" "blockDim_y t = snd b"
    "blockIdx_x t < fst g" "blockIdx_y t < snd g"
    "threadIdx_x t < fst b" "threadIdx_y t < snd b"
    by (simp_all add: set_grid_threads)
  have "blockIdx_x t * fst b + threadIdx_x t < Suc (blockIdx_x t) * fst b" using d by simp
  also have "\<dots> \<le> fst g * fst b" using d by (intro mult_le_mono1) simp
  finally show "blockIdx_x t * blockDim_x t + threadIdx_x t < fst g * fst b" using d by simp
  have "blockIdx_y t * snd b + threadIdx_y t < Suc (blockIdx_y t) * snd b" using d by simp
  also have "\<dots> \<le> snd g * snd b" using d by (intro mult_le_mono1) simp
  finally show "blockIdx_y t * blockDim_y t + threadIdx_y t < snd g * snd b" using d by simp
qed

text \<open>
  Two-dimensional kernels: thread \<open>(row, col)\<close> owns cell \<open>row * k + col\<close>. The threads
  of the grid may run in any order \<open>ts\<close>.
\<close>

lemma schedule_2d:
  fixes body :: "thread_id \<Rightarrow> 'a buf \<Rightarrow> 'a buf"
  assumes ts: "distinct ts" "set ts = set (grid_threads g b)"
    and body: "\<And>t C. t \<in> set (grid_threads g b) \<Longrightarrow> body t C =
     (let row = blockIdx_y t * blockDim_y t + threadIdx_y t;
          col = blockIdx_x t * blockDim_x t + threadIdx_x t
      in if row < m \<and> col < k then C(row * k + col := f row col (C (row * k + col))) else C)"
  shows "fold body ts C j =
     (if j < m * k \<and> j div k < snd g * snd b \<and> j mod k < fst g * fst b
      then f (j div k) (j mod k) (C j) else C j)"
proof -
  define row where "row t = blockIdx_y t * blockDim_y t + threadIdx_y t" for t :: thread_id
  define col where "col t = blockIdx_x t * blockDim_x t + threadIdx_x t" for t :: thread_id
  define G where "G t \<longleftrightarrow> row t < m \<and> col t < k" for t
  define W where "W t = row t * k + col t" for t
  define F where "F t = f (row t) (col t)" for t
  have body': "body t C = (if G t then C(W t := F t (C (W t))) else C)"
    if "t \<in> set ts" for t C
    using that ts(2) by (simp add: body G_def W_def F_def row_def col_def Let_def)
  have W: "row t = j div k \<and> col t = j mod k \<and> j < m * k" if "G t" "W t = j" for t
  proof -
    from that have c: "col t < k" and r: "row t < m" and j: "j = row t * k + col t"
      by (simp_all add: G_def W_def)
    have "j < Suc (row t) * k" using c j by simp
    also have "\<dots> \<le> m * k" using r by (intro mult_le_mono1) simp
    finally show ?thesis using c j by simp
  qed
  show ?thesis
  proof (cases "j < m * k \<and> j div k < snd g * snd b \<and> j mod k < fst g * fst b")
    case True
    then obtain t where t: "t \<in> set ts" "row t = j div k" "col t = j mod k"
      using grid_covers[of "j mod k" g b "j div k"] ts(2) by (auto simp: row_def col_def)
    from True have "0 < k" by (auto intro: gr0I)
    with True t have Gt: "G t" and Wt: "W t = j"
      by (simp_all add: G_def W_def less_mult_imp_div_less)
    have "fold body ts C (W t) = F t (C (W t))"
    proof (rule fold_pointwise[where g = G, OF ts(1) t(1) Gt body'])
      fix t' assume t': "t' \<in> set ts" "G t'" "W t' = W t"
      with W[of t'] Wt t have "row t' = row t" "col t' = col t" by simp_all
      then show "t' = t"
        using t(1) t'(1) ts(2) by (intro grid_index_unique[of _ g b]) (simp_all add: row_def col_def)
    qed
    with True Wt t show ?thesis by (simp add: F_def)
  next
    case False
    have "fold body ts C j = C j"
    proof (rule fold_untouched[where g = G, OF body'])
      fix t assume t: "t \<in> set ts" "G t"
      then have g: "t \<in> set (grid_threads g b)" using ts(2) by simp
      show "W t \<noteq> j"
      proof
        assume "W t = j"
        with W[of t] t grid_index_bound[OF g] False show False
          by (simp add: row_def col_def)
      qed
    qed
    with False show ?thesis by auto
  qed
qed

lemma launch_2d:
  fixes body :: "thread_id \<Rightarrow> 'a buf \<Rightarrow> 'a buf"
  assumes body: "\<And>t C. t \<in> set (grid_threads g b) \<Longrightarrow> body t C =
     (let row = blockIdx_y t * blockDim_y t + threadIdx_y t;
          col = blockIdx_x t * blockDim_x t + threadIdx_x t
      in if row < m \<and> col < k then C(row * k + col := f row col (C (row * k + col))) else C)"
  shows "launch g b body C j =
     (if j < m * k \<and> j div k < snd g * snd b \<and> j mod k < fst g * fst b
      then f (j div k) (j mod k) (C j) else C j)"
  unfolding launch_def using distinct_grid_threads refl body by (rule schedule_2d)

text \<open>The order in which the threads of such a launch run does not matter.\<close>

lemma launch_2d_any_order:
  fixes body :: "thread_id \<Rightarrow> 'a buf \<Rightarrow> 'a buf"
  assumes "distinct ts" "set ts = set (grid_threads g b)"
    and "\<And>t C. t \<in> set (grid_threads g b) \<Longrightarrow> body t C =
     (let row = blockIdx_y t * blockDim_y t + threadIdx_y t;
          col = blockIdx_x t * blockDim_x t + threadIdx_x t
      in if row < m \<and> col < k then C(row * k + col := f row col (C (row * k + col))) else C)"
  shows "fold body ts C = launch g b body C"
proof
  fix j
  show "fold body ts C j = launch g b body C j"
    using schedule_2d[OF assms, where C = C and j = j] launch_2d[OF assms(3), where C = C and j = j]
    by simp
qed

lemma launch_1d:
  fixes body :: "thread_id \<Rightarrow> 'a buf \<Rightarrow> 'a buf"
  assumes body: "\<And>t C. body t C =
     (let idx = blockIdx_x t * blockDim_x t + threadIdx_x t
      in if idx < n then C(idx := f idx (C idx)) else C)"
  shows "launch (g, 1) (b, 1) body C j = (if j < n \<and> j < g * b then f j (C j) else C j)"
proof -
  have "launch (g, 1) (b, 1) body C j =
     (if j < 1 * n \<and> j div n < snd (g, 1::nat) * snd (b, 1::nat) \<and> j mod n < fst (g, 1::nat) * fst (b, 1::nat)
      then f (j mod n) (C j) else C j)"
    by (rule launch_2d[where f = "\<lambda>row col. f col"])
       (simp add: body set_grid_threads Let_def)
  then show ?thesis by auto
qed


section \<open>Matrix multiplication\<close>

text \<open>
  What a launch of the plain kernel leaves at every offset of the output buffer, for
  every launch configuration and every interpretation of \<open>0\<close>, \<open>+\<close> and \<open>*\<close>:
  the accumulation from \<open>0\<close> in index order where a thread of the grid owns the
  offset, the old content elsewhere.
\<close>

lemma matmul_a_b_launch:
  "launch g b (\<lambda>t C. matmul_a_b_kernel t A B C m n k) C j =
     (if j < m * k \<and> j div k < snd g * snd b \<and> j mod k < fst g * fst b
      then fold (\<lambda>i sum. sum + A (j div k * n + i) * B (i * k + j mod k)) [0..<n] 0
      else C j)"
  by (rule launch_2d[where f = "\<lambda>row col _. fold (\<lambda>i sum. sum + A (row * n + i) * B (i * k + col)) [0..<n] 0"])
     (simp add: matmul_a_b_kernel_def)

lemma fold_add_sum:
  fixes h :: "nat \<Rightarrow> 'a::comm_monoid_add"
  shows "fold (\<lambda>i sum. sum + h i) [0..<n] a = a + (\<Sum>i<n. h i)"
  by (induction n) (simp_all add: add.assoc)

text \<open>
  C1: for every \<open>m\<close>, \<open>n\<close>, \<open>k\<close>, every \<open>m \<times> n\<close> matrix \<open>A\<close> and \<open>n \<times> k\<close> matrix
  \<open>B\<close> in row-major flat addressing, a launch of the plain GEMM kernel whose grid covers
  the \<open>m \<times> k\<close> output sets every output element \<open>C[r, c]\<close> with \<open>r < m\<close> and
  \<open>c < k\<close> to the sum over \<open>i < n\<close> of \<open>A[r, i] * B[i, c]\<close>, whatever the buffer held
  before. The sum is the one of a commutative monoid; \<open>matmul_a_b_launch\<close> gives the
  order of accumulation without any law of arithmetic.
\<close>

theorem matmul_a_b_kernel_product:
  fixes A B C :: "'a::{comm_monoid_add,times} buf"
  assumes "k \<le> fst g * fst b" and "m \<le> snd g * snd b" and "r < m" and "c < k"
  shows "launch g b (\<lambda>t C. matmul_a_b_kernel t A B C m n k) C (r * k + c) =
           (\<Sum>i<n. A (r * n + i) * B (i * k + c))"
proof -
  have "r * k + c < Suc r * k" using assms by simp
  also have "\<dots> \<le> m * k" using assms by (intro mult_le_mono1) simp
  finally have "r * k + c < m * k" .
  then show ?thesis using assms by (simp add: matmul_a_b_launch fold_add_sum)
qed

theorem matmul_a_b_kernel_product_witness:
  "(2::nat) \<le> fst (1, 1) * fst (2, 2) \<and> (2::nat) \<le> snd (1, 1) * snd (2, 2)
   \<and> (1::nat) < 2
   \<and> launch (1, 1) (2, 2) (\<lambda>t C. matmul_a_b_kernel t (\<lambda>i. int i + 1) (\<lambda>i. int i + 5) C 2 2 2)
        (\<lambda>_. 100) (1 * 2 + 1) = 50"
  using matmul_a_b_kernel_product[where k = 2 and g = "(1, 1)" and b = "(2, 2)" and m = 2
      and r = 1 and c = 1 and A = "\<lambda>i. int i + 1" and n = 2 and B = "\<lambda>i. int i + 5"
      and C = "\<lambda>_. 100"]
  by (simp add: numeral_2_eq_2)


section \<open>The transposing kernels\<close>

lemma transpose_mat_at:
  assumes "r < rows" "c < cols"
  shows "transpose_mat M rows cols (c * rows + r) = M (r * cols + c)"
proof -
  have "c * rows + r < Suc c * rows" using assms by simp
  also have "\<dots> \<le> cols * rows" using assms by (intro mult_le_mono1) simp
  finally show ?thesis using assms by (simp add: transpose_mat_def)
qed

lemma matmul_a_bt_kernel_eq:
  "matmul_a_bt_kernel t A B C m n k = matmul_a_b_kernel t A (transpose_mat B k n) C m n k"
proof -
  have "fold (\<lambda>i sum. sum + A (row * n + i) * B (col * n + i)) [0..<n] a =
        fold (\<lambda>i sum. sum + A (row * n + i) * transpose_mat B k n (i * k + col)) [0..<n] a"
    if "col < k" for row col a
    using that by (intro fold_cong) (simp_all add: transpose_mat_at)
  then show ?thesis
    by (simp add: matmul_a_bt_kernel_def matmul_a_b_kernel_def Let_def)
qed

lemma matmul_at_b_kernel_eq:
  "matmul_at_b_kernel t A B C m n k = matmul_a_b_kernel t (transpose_mat A m n) B C n m k"
proof -
  have "fold (\<lambda>i sum. sum + A (i * n + row) * B (i * k + col)) [0..<m] a =
        fold (\<lambda>i sum. sum + transpose_mat A m n (row * m + i) * B (i * k + col)) [0..<m] a"
    if "row < n" for row col a
    using that by (intro fold_cong) (simp_all add: transpose_mat_at)
  then show ?thesis
    by (simp add: matmul_at_b_kernel_def matmul_a_b_kernel_def Let_def)
qed

text \<open>
  C6: for all shapes \<open>m\<close>, \<open>n\<close>, \<open>k\<close>, all buffers and every launch configuration, a
  launch of the transpose-right kernel on \<open>A\<close> and \<open>B\<close> (a \<open>k \<times> n\<close> matrix) leaves the
  output buffer that a launch of the plain kernel leaves on \<open>A\<close> and the explicit
  transpose of \<open>B\<close>; a launch of the transpose-left kernel on \<open>A\<close> (an \<open>m \<times> n\<close>
  matrix) and \<open>B\<close> leaves the output buffer that a launch of the plain kernel, with
  the shape \<open>n\<close>, \<open>m\<close>, \<open>k\<close>, leaves on the explicit transpose of \<open>A\<close> and \<open>B\<close>. No
  law of arithmetic is used: the two sides add the same products in the same order.
\<close>

theorem matmul_transposed_kernels:
  "launch g b (\<lambda>t C. matmul_a_bt_kernel t A B C m n k) C =
     launch g b (\<lambda>t C. matmul_a_b_kernel t A (transpose_mat B k n) C m n k) C
   \<and> launch g b (\<lambda>t C. matmul_at_b_kernel t A B C m n k) C =
     launch g b (\<lambda>t C. matmul_a_b_kernel t (transpose_mat A m n) B C n m k) C"
  by (simp add: matmul_a_bt_kernel_eq matmul_at_b_kernel_eq)


section \<open>The elementwise kernels\<close>

lemma bias_add_guard:
  fixes idx size' batch_size :: nat
  shows "idx div size' < batch_size \<and> idx mod size' < size' \<longleftrightarrow> idx < batch_size * size'"
proof (cases "size' = 0")
  case True
  then show ?thesis by simp
next
  case False
  then show ?thesis by (simp add: div_less_iff_less_mult)
qed

lemma bias_add_kernel_alt:
  "bias_add_kernel t x bias batch_size size' =
     (let idx = blockIdx_x t * blockDim_x t + threadIdx_x t
      in if idx < batch_size * size' then x(idx := x idx + bias (idx mod size')) else x)"
  using bias_add_guard[of "blockIdx_x t * blockDim_x t + threadIdx_x t" size' batch_size]
  by (simp add: bias_add_kernel_def Let_def)

lemma launch_elementwise_frame:
  fixes body :: "thread_id \<Rightarrow> 'a buf \<Rightarrow> 'a buf"
  assumes body: "\<And>t C. body t C =
     (let idx = blockIdx_x t * blockDim_x t + threadIdx_x t
      in if idx < n then C(idx := f idx (C idx)) else C)"
    and "n \<le> j"
  shows "launch g b body C j = C j"
  unfolding launch_def
  by (rule fold_untouched[where g = "\<lambda>t. blockIdx_x t * blockDim_x t + threadIdx_x t < n"
        and w = "\<lambda>t. blockIdx_x t * blockDim_x t + threadIdx_x t"
        and f = "\<lambda>t. f (blockIdx_x t * blockDim_x t + threadIdx_x t)"])
     (use \<open>n \<le> j\<close> in \<open>auto simp: body Let_def\<close>)

lemma dgelu_kernel_fst: "fst (dgelu_kernel t x d size') = x"
  by (simp add: dgelu_kernel_def Let_def)

lemma dgelu_fold:
  "fold (\<lambda>t (x, d). dgelu_kernel t x d size') ts (x, d) =
     (x, fold (\<lambda>t d. snd (dgelu_kernel t x d size')) ts d)"
proof (induction ts arbitrary: d)
  case Nil
  show ?case by simp
next
  case (Cons a ts)
  have "dgelu_kernel a x d size' = (x, snd (dgelu_kernel a x d size'))"
    by (metis dgelu_kernel_fst prod.collapse)
  then have "fold (\<lambda>t (x, d). dgelu_kernel t x d size') (a # ts) (x, d) =
      fold (\<lambda>t (x, d). dgelu_kernel t x d size') ts (x, snd (dgelu_kernel a x d size'))"
    by simp
  then show ?case using Cons.IH by simp
qed

lemma dgelu_launch:
  "launch g b (\<lambda>t (x, d). dgelu_kernel t x d size') (x, d) =
     (x, launch g b (\<lambda>t d. snd (dgelu_kernel t x d size')) d)"
  by (simp add: launch_def dgelu_fold)

lemma dgelu_kernel_snd:
  "snd (dgelu_kernel t x d size') =
     (let idx = blockIdx_x t * blockDim_x t + threadIdx_x t
      in if idx < size'
         then d(idx := 0.5 * (1 + tanh (0.7978845608 * (x idx + 0.044715 * x idx ^ 3)))
                       + x idx * (0.5 * sqrt (2 / pi) * exp (- (x idx ^ 2) / 2)))
         else d)"
  by (simp add: dgelu_kernel_def Let_def power3_eq_cube power2_eq_square mult.assoc)

text \<open>
  C9: for every size and every buffer \<open>x\<close> of pre-activation values, a one-dimensional
  launch of the derivative kernel that covers \<open>size\<close> leaves the input buffer as it
  was and writes, into each element \<open>idx < size\<close> of the output buffer, \<open>cdf + x * pdf\<close>
  with \<open>cdf = 0.5 * (1 + tanh (0.7978845608 * (x + 0.044715 * x^3)))\<close> and
  \<open>pdf = 0.5 * sqrt (2 / pi) * exp (- x^2 / 2)\<close>, \<open>x\<close> being \<open>x[idx]\<close>.
\<close>

theorem dgelu_kernel_formula:
  assumes "idx < size'" and "size' \<le> g * b"
  shows "fst (launch (g, 1) (b, 1) (\<lambda>t (x, d_gelu_out). dgelu_kernel t x d_gelu_out size') (x, d_gelu_out)) = x
       \<and> snd (launch (g, 1) (b, 1) (\<lambda>t (x, d_gelu_out). dgelu_kernel t x d_gelu_out size') (x, d_gelu_out)) idx =
           0.5 * (1 + tanh (0.7978845608 * (x idx + 0.044715 * x idx ^ 3)))
           + x idx * (0.5 * sqrt (2 / pi) * exp (- (x idx ^ 2) / 2))"
proof -
  have "launch (g, 1) (b, 1) (\<lambda>t d. snd (dgelu_kernel t x d size')) d_gelu_out idx =
      (if idx < size' \<and> idx < g * b
       then 0.5 * (1 + tanh (0.7978845608 * (x idx + 0.044715 * x idx ^ 3)))
            + x idx * (0.5 * sqrt (2 / pi) * exp (- (x idx ^ 2) / 2))
       else d_gelu_out idx)"
    by (rule launch_1d[where f = "\<lambda>idx _. 0.5 * (1 + tanh (0.7978845608 * (x idx + 0.044715 * x idx ^ 3)))
            + x idx * (0.5 * sqrt (2 / pi) * exp (- (x idx ^ 2) / 2))"])
       (simp add: dgelu_kernel_snd)
  then show ?thesis using assms by (simp add: dgelu_launch)
qed

theorem dgelu_kernel_formula_witness:
  "(0::nat) < 1 \<and> (1::nat) \<le> 1 * 1
   \<and> fst (launch (1, 1) (1, 1) (\<lambda>t (x, d_gelu_out). dgelu_kernel t x d_gelu_out 1) (\<lambda>_. 0, \<lambda>_. 7)) = (\<lambda>_. 0)
   \<and> snd (launch (1, 1) (1, 1) (\<lambda>t (x, d_gelu_out). dgelu_kernel t x d_gelu_out 1) (\<lambda>_. 0, \<lambda>_. 7)) 0 = 1 / 2"
  using dgelu_kernel_formula[where idx = 0 and size' = 1 and g = 1 and b = 1 and x = "\<lambda>_. 0"
      and d_gelu_out = "\<lambda>_. 7"]
  by simp


section \<open>The index guards\<close>

lemma matmul_kernels_guard:
  assumes "m \<le> blockIdx_y t * blockDim_y t + threadIdx_y t
         \<or> k \<le> blockIdx_x t * blockDim_x t + threadIdx_x t"
  shows "matmul_a_b_kernel t A B C m n k = C" and "matmul_a_bt_kernel t A B C m n k = C"
    and "matmul_at_b_kernel t A B C n' m k = C"
  using assms by (auto simp: matmul_a_b_kernel_def matmul_a_bt_kernel_def matmul_at_b_kernel_def Let_def)

lemma elementwise_kernels_guard:
  assumes "size' \<le> blockIdx_x t * blockDim_x t + threadIdx_x t"
  shows "gelu_kernel t y size' = y" and "dgelu_kernel t y d size' = (y, d)"
    and "multiply_gradients_kernel t grad1 grad2 size' = grad1"
  using assms by (simp_all add: gelu_kernel_def dgelu_kernel_def multiply_gradients_kernel_def Let_def)

lemma bias_add_kernel_guard:
  assumes "batch_size * size' \<le> blockIdx_x t * blockDim_x t + threadIdx_x t"
  shows "bias_add_kernel t x bias batch_size size' = x"
  using assms by (simp add: bias_add_kernel_alt Let_def)

lemma matmul_launch_frame:
  assumes "m * k \<le> j"
  shows "launch g b (\<lambda>t C. matmul_a_b_kernel t A B C m n k) C j = C j"
    and "launch g b (\<lambda>t C. matmul_a_bt_kernel t A B C m n k) C j = C j"
    and "launch g b (\<lambda>t C. matmul_at_b_kernel t A B C n' m k) C j = C j"
  using assms by (simp_all add: matmul_a_bt_kernel_eq matmul_at_b_kernel_eq matmul_a_b_launch)

lemma elementwise_launch_frame:
  assumes "size' \<le> j"
  shows "launch g b (\<lambda>t x. gelu_kernel t x size') y j = y j"
    and "launch g b (\<lambda>t grad1. multiply_gradients_kernel t grad1 grad2 size') grad1 j = grad1 j"
    and "launch g b (\<lambda>t (x, d). dgelu_kernel t x d size') (y, d) = (y', d') \<Longrightarrow> y' = y \<and> d' j = d j"
proof -
  show "launch g b (\<lambda>t x. gelu_kernel t x size') y j = y j"
    by (rule launch_elementwise_frame[where n = size' and f = "\<lambda>idx v.
          v * (0.5 * (1 + tanh (0.7978845608 * (v + 0.044715 * v * v * v))))"])
       (simp_all add: gelu_kernel_def Let_def assms)
  show "launch g b (\<lambda>t grad1. multiply_gradients_kernel t grad1 grad2 size') grad1 j = grad1 j"
    by (rule launch_elementwise_frame[where n = size' and f = "\<lambda>idx v. v * grad2 idx"])
       (simp_all add: multiply_gradients_kernel_def Let_def assms)
  have "launch g b (\<lambda>t d. snd (dgelu_kernel t y d size')) d j = d j"
    by (rule launch_elementwise_frame[where n = size' and f = "\<lambda>idx _.
          0.5 * (1 + tanh (0.7978845608 * (y idx + 0.044715 * y idx ^ 3)))
          + y idx * (0.5 * sqrt (2 / pi) * exp (- (y idx ^ 2) / 2))"])
       (simp_all add: dgelu_kernel_snd assms)
  then show "launch g b (\<lambda>t (x, d). dgelu_kernel t x d size') (y, d) = (y', d') \<Longrightarrow> y' = y \<and> d' j = d j"
    by (auto simp: dgelu_launch)
qed

lemma bias_add_launch_frame:
  assumes "batch_size * size' \<le> j"
  shows "launch g b (\<lambda>t x. bias_add_kernel t x bias batch_size size') x j = x j"
  by (rule launch_elementwise_frame[where n = "batch_size * size'" and f = "\<lambda>idx v. v + bias (idx mod size')"])
     (simp_all add: bias_add_kernel_alt assms)


text \<open>
  C10: in every launch, whatever the grid, a worker whose index is outside the declared
  output region writes nothing, and every element of the written buffer outside that
  region is unchanged by the launch. The region is \<open>row < m\<close>, \<open>col < k\<close> (offsets
  below \<open>m * k\<close>) for the plain and the transpose-right GEMM kernels and \<open>row < n\<close>,
  \<open>col < k\<close> (offsets below \<open>n * k\<close>) for the transpose-left one, whose output has \<open>n\<close>
  rows; it is the offsets below \<open>batch_size * size\<close> for the bias addition (with
  \<open>size\<close> positive, since the kernel divides by it) and below \<open>size\<close> for the
  elementwise kernels. The buffers a kernel only reads are not assigned to at all.
\<close>

theorem out_of_range_workers_write_nothing:
  fixes A B C :: "'a::{zero,plus,times} buf" and x bias :: "'b::plus buf"
    and grad1 grad2 :: "'c::times buf" and y d :: "real buf"
  shows
   "(m \<le> blockIdx_y t * blockDim_y t + threadIdx_y t \<or> k \<le> blockIdx_x t * blockDim_x t + threadIdx_x t
       \<longrightarrow> matmul_a_b_kernel t A B C m n k = C \<and> matmul_a_bt_kernel t A B C m n k = C)
  \<and> (n \<le> blockIdx_y t * blockDim_y t + threadIdx_y t \<or> k \<le> blockIdx_x t * blockDim_x t + threadIdx_x t
       \<longrightarrow> matmul_at_b_kernel t A B C m n k = C)
  \<and> (0 < size' \<and> batch_size * size' \<le> blockIdx_x t * blockDim_x t + threadIdx_x t
       \<longrightarrow> bias_add_kernel t x bias batch_size size' = x)
  \<and> (size' \<le> blockIdx_x t * blockDim_x t + threadIdx_x t
       \<longrightarrow> gelu_kernel t y size' = y \<and> dgelu_kernel t y d size' = (y, d)
         \<and> multiply_gradients_kernel t grad1 grad2 size' = grad1)
  \<and> (m * k \<le> j
       \<longrightarrow> launch g b (\<lambda>t C. matmul_a_b_kernel t A B C m n k) C j = C j
         \<and> launch g b (\<lambda>t C. matmul_a_bt_kernel t A B C m n k) C j = C j)
  \<and> (n * k \<le> j
       \<longrightarrow> launch g b (\<lambda>t C. matmul_at_b_kernel t A B C m n k) C j = C j)
  \<and> (0 < size' \<and> batch_size * size' \<le> j
       \<longrightarrow> launch g b (\<lambda>t x. bias_add_kernel t x bias batch_size size') x j = x j)
  \<and> (size' \<le> j
       \<longrightarrow> launch g b (\<lambda>t x. gelu_kernel t x size') y j = y j
         \<and> launch g b (\<lambda>t grad1. multiply_gradients_kernel t grad1 grad2 size') grad1 j = grad1 j
         \<and> fst (launch g b (\<lambda>t (x, d). dgelu_kernel t x d size') (y, d)) = y
         \<and> snd (launch g b (\<lambda>t (x, d). dgelu_kernel t x d size') (y, d)) j = d j)"
proof (intro conjI impI)
  assume "size' \<le> j"
  then show "fst (launch g b (\<lambda>t (x, d). dgelu_kernel t x d size') (y, d)) = y"
    and "snd (launch g b (\<lambda>t (x, d). dgelu_kernel t x d size') (y, d)) j = d j"
    using elementwise_launch_frame(3)[OF _ surjective_pairing] by blast+
qed (simp_all add: matmul_kernels_guard elementwise_kernels_guard bias_add_kernel_guard
       matmul_launch_frame elementwise_launch_frame(1,2) bias_add_launch_frame)

theorem out_of_range_workers_write_nothing_witness:
  "(2::nat) \<le> 1 * 2 + 0
   \<and> matmul_a_b_kernel \<lparr>blockIdx_x = 1, blockIdx_y = 0, blockDim_x = 2, blockDim_y = 2,
        threadIdx_x = 0, threadIdx_y = 0\<rparr> (\<lambda>i. int i) (\<lambda>i. int i) (\<lambda>_. 9) 2 2 2 = (\<lambda>_. 9)
   \<and> matmul_at_b_kernel \<lparr>blockIdx_x = 1, blockIdx_y = 0, blockDim_x = 2, blockDim_y = 2,
        threadIdx_x = 0, threadIdx_y = 0\<rparr> (\<lambda>i. int i) (\<lambda>i. int i) (\<lambda>_. 9) 2 2 2 = (\<lambda>_. 9)
   \<and> (0::nat) < 2 \<and> (1::nat) * 2 \<le> 1 * 2 + 0
   \<and> bias_add_kernel \<lparr>blockIdx_x = 1, blockIdx_y = 0, blockDim_x = 2, blockDim_y = 2,
        threadIdx_x = 0, threadIdx_y = 0\<rparr> (\<lambda>i. int i) (\<lambda>_. 1) 1 2 = (\<lambda>i. int i)
   \<and> gelu_kernel \<lparr>blockIdx_x = 1, blockIdx_y = 0, blockDim_x = 2, blockDim_y = 2,
        threadIdx_x = 0, threadIdx_y = 0\<rparr> (\<lambda>_. 1) 2 = (\<lambda>_. 1)
   \<and> multiply_gradients_kernel \<lparr>blockIdx_x = 1, blockIdx_y = 0, blockDim_x = 2, blockDim_y = 2,
        threadIdx_x = 0, threadIdx_y = 0\<rparr> (\<lambda>i. int i) (\<lambda>_. 3) 2 = (\<lambda>i. int i)
   \<and> (2::nat) * 2 \<le> 5
   \<and> launch (2, 2) (2, 2) (\<lambda>t C. matmul_a_b_kernel t (\<lambda>i. int i) (\<lambda>i. int i) C 2 2 2) (\<lambda>_. 9) 5 = 9
   \<and> launch (2, 2) (2, 2) (\<lambda>t C. matmul_a_bt_kernel t (\<lambda>i. int i) (\<lambda>i. int i) C 2 2 2) (\<lambda>_. 9) 5 = 9
   \<and> launch (2, 2) (2, 2) (\<lambda>t C. matmul_at_b_kernel t (\<lambda>i. int i) (\<lambda>i. int i) C 2 2 2) (\<lambda>_. 9) 5 = 9
   \<and> launch (2, 2) (2, 2) (\<lambda>t x. bias_add_kernel t x (\<lambda>_. 1) 1 2) (\<lambda>i. int i) 5 = 5
   \<and> launch (2, 2) (2, 2) (\<lambda>t x. gelu_kernel t x 2) (\<lambda>_. 1) 5 = 1
   \<and> launch (2, 2) (2, 2) (\<lambda>t grad1. multiply_gradients_kernel t grad1 (\<lambda>_. 3) 2) (\<lambda>i. int i) 5 = 5
   \<and> snd (launch (2, 2) (2, 2) (\<lambda>t (x, d). dgelu_kernel t x d 2) (\<lambda>_. 1, \<lambda>_. 4)) 5 = 4"
  using out_of_range_workers_write_nothing[where t = "\<lparr>blockIdx_x = 1, blockIdx_y = 0, blockDim_x = 2,
        blockDim_y = 2, threadIdx_x = 0, threadIdx_y = 0\<rparr>" and m = 2 and n = 2 and k = 2
      and A = "\<lambda>i. int i" and B = "\<lambda>i. int i" and C = "\<lambda>_. 9" and size' = 2 and batch_size = 1
      and x = "\<lambda>i. int i" and bias = "\<lambda>_. 1" and y = "\<lambda>_. 1" and d = "\<lambda>_. 4"
      and ?grad1.0 = "\<lambda>i. int i" and ?grad2.0 = "\<lambda>_. 3" and j = 5 and g = "(2, 2)" and b = "(2, 2)"]
  by simp


section \<open>The softmax kernel\<close>

lemma softmax_exp_loop:
  "fold (\<lambda>i (x, sum). let x = x(off + i := exp (x (off + i) - M)) in (x, sum + x (off + i)))
      [0..<n] (x :: real buf, a) =
   ((\<lambda>j. if off \<le> j \<and> j < off + n then exp (x j - M) else x j),
    a + (\<Sum>i<n. exp (x (off + i) - M)))"
proof (induction n)
  case 0
  have "x = (\<lambda>j. if off \<le> j \<and> j < off + 0 then exp (x j - M) else x j)"
    by (rule ext) auto
  then show ?case by simp
next
  case (Suc n)
  define F where "F = (\<lambda>i (x :: real buf, sum).
      let x = x(off + i := exp (x (off + i) - M)) in (x, sum + x (off + i)))"
  define y where "y = (\<lambda>j. if off \<le> j \<and> j < off + n then exp (x j - M) else x j)"
  have "fold F [0..<Suc n] (x, a) = F n (fold F [0..<n] (x, a))" by simp
  also have "\<dots> = F n (y, a + (\<Sum>i<n. exp (x (off + i) - M)))"
    using Suc by (simp only: F_def y_def)
  also have "\<dots> = (y(off + n := exp (x (off + n) - M)), a + (\<Sum>i<Suc n. exp (x (off + i) - M)))"
    by (simp add: F_def y_def Let_def add.assoc)
  also have "y(off + n := exp (x (off + n) - M))
      = (\<lambda>j. if off \<le> j \<and> j < off + Suc n then exp (x j - M) else x j)"
    unfolding y_def by (rule ext) auto
  finally show ?case unfolding F_def .
qed

lemma softmax_div_loop:
  "fold (\<lambda>i x. x(off + i := max (x (off + i) / S) c)) [0..<n] (x :: real buf) =
   (\<lambda>j. if off \<le> j \<and> j < off + n then max (x j / S) c else x j)"
proof (induction n)
  case 0
  have "x = (\<lambda>j. if off \<le> j \<and> j < off + 0 then max (x j / S) c else x j)"
    by (rule ext) auto
  then show ?case by simp
next
  case (Suc n)
  define F where "F = (\<lambda>i (x :: real buf). x(off + i := max (x (off + i) / S) c))"
  define y where "y = (\<lambda>j. if off \<le> j \<and> j < off + n then max (x j / S) c else x j)"
  have "fold F [0..<Suc n] x = F n (fold F [0..<n] x)" by simp
  also have "\<dots> = F n y"
    using Suc by (simp only: F_def y_def)
  also have "\<dots> = y(off + n := max (x (off + n) / S) c)"
    by (simp add: F_def y_def)
  also have "\<dots> = (\<lambda>j. if off \<le> j \<and> j < off + Suc n then max (x j / S) c else x j)"
    unfolding y_def by (rule ext) auto
  finally show ?case unfolding F_def .
qed

lemma softmax_kernel_row:
  "softmax_kernel t x batch_size size' =
     (let b = blockIdx_x t
      in if b < batch_size
         then (\<lambda>j. if b * size' \<le> j \<and> j < b * size' + size'
                    then max (exp (x j - row_max x b size')
                              / (\<Sum>i<size'. exp (x (b * size' + i) - row_max x b size'))) (1 / 10 ^ 7)
                    else x j)
         else x)"
  unfolding softmax_kernel_def row_max_def[symmetric] softmax_exp_loop
  by (simp add: Let_def softmax_div_loop cong: if_cong)


lemma row_max_cong:
  assumes "0 < size'" and "\<And>i. i < size' \<Longrightarrow> x (b * size' + i) = y (b * size' + i)"
  shows "row_max x b size' = row_max y b size'"
proof -
  have "x (b * size') = y (b * size')" using assms(2)[of 0] assms(1) by simp
  moreover have "fold (\<lambda>i max_val. max max_val (x (b * size' + i))) [1..<size'] a =
      fold (\<lambda>i max_val. max max_val (y (b * size' + i))) [1..<size'] a" for a
    by (intro fold_cong) (simp_all add: assms(2))
  ultimately show ?thesis by (simp add: row_max_def)
qed

lemma row_bounds:
  fixes j size' :: nat
  assumes "0 < size'"
  shows "b * size' \<le> j \<and> j < b * size' + size' \<longleftrightarrow> j div size' = b"
proof
  assume a: "b * size' \<le> j \<and> j < b * size' + size'"
  then obtain i where "j = b * size' + i" "i < size'"
    by (metis add.commute le_Suc_ex nat_add_left_cancel_less)
  then show "j div size' = b" by simp
next
  assume "j div size' = b"
  then have "j = b * size' + j mod size'" by (metis div_mult_mod_eq)
  moreover have "j mod size' < size'" using assms by simp
  ultimately show "b * size' \<le> j \<and> j < b * size' + size'" by linarith
qed

text \<open>
  The softmax threads each own a row. The threads of the launch may run in any order
  \<open>ts\<close>.
\<close>

lemma schedule_softmax:
  assumes ts: "distinct ts" "set ts = set (grid_threads (batch_size, 1) (1, 1))"
  shows "fold (\<lambda>t x. softmax_kernel t x batch_size size') ts x j =
     (if j < batch_size * size'
      then max (exp (x j - row_max x (j div size') size')
                / (\<Sum>i<size'. exp (x (j div size' * size' + i) - row_max x (j div size') size')))
               (1 / 10 ^ 7)
      else x j)"
proof (cases "j < batch_size * size'")
  case True
  then have pos: "0 < size'" by (auto intro: gr0I)
  define b where "b = j div size'"
  define R where "R = {i. i div size' = b}"
  define t where "t = \<lparr>blockIdx_x = b, blockIdx_y = 0, blockDim_x = 1, blockDim_y = 1,
      threadIdx_x = 0, threadIdx_y = 0\<rparr>"
  have b: "b < batch_size" using True pos by (simp add: b_def less_mult_imp_div_less)
  have t: "t \<in> set ts"
    using b by (simp add: ts(2) set_grid_threads t_def)
  have row: "softmax_kernel u C batch_size size' i =
      (if blockIdx_x u < batch_size \<and> i div size' = blockIdx_x u
       then max (exp (C i - row_max C (blockIdx_x u) size')
                 / (\<Sum>i<size'. exp (C (blockIdx_x u * size' + i) - row_max C (blockIdx_x u) size')))
                (1 / 10 ^ 7)
       else C i)" for u C i
    using row_bounds[OF pos, of "blockIdx_x u" i] by (simp add: softmax_kernel_row Let_def)
  have "fold (\<lambda>t x. softmax_kernel t x batch_size size') ts x j
      = softmax_kernel t x batch_size size' j"
  proof (rule fold_owner[where R = R, OF ts(1) t])
    fix t' C i
    assume t': "t' \<in> set ts" "t' \<noteq> t" "i \<in> R"
    then have "blockIdx_x t' \<noteq> b" by (auto simp: ts(2) set_grid_threads t_def)
    with t'(3) show "softmax_kernel t' C batch_size size' i = C i"
      by (simp add: row R_def)
  next
    fix C C' :: "real buf" and i
    assume eq: "\<forall>i\<in>R. C i = C' i" and i: "i \<in> R"
    have cells: "C (b * size' + l) = C' (b * size' + l)" if "l < size'" for l
      using that eq by (simp add: R_def)
    have "row_max C b size' = row_max C' b size'"
      using pos cells by (rule row_max_cong)
    moreover have "C i = C' i" using eq i by simp
    ultimately show "softmax_kernel t C batch_size size' i = softmax_kernel t C' batch_size size' i"
      using cells by (simp add: row t_def)
  qed (simp add: R_def b_def)
  then show ?thesis using True b by (simp add: row t_def b_def)
next
  case False
  have "fold (\<lambda>t x. softmax_kernel t x batch_size size') ts x j = x j"
  proof (rule fold_frame)
    fix t C
    assume "t \<in> set ts"
    show "softmax_kernel t C batch_size size' j = C j"
    proof (cases "blockIdx_x t < batch_size \<and> blockIdx_x t * size' \<le> j \<and> j < blockIdx_x t * size' + size'")
      case True
      then have "j < Suc (blockIdx_x t) * size'" by simp
      also have "\<dots> \<le> batch_size * size'" using True by (intro mult_le_mono1) simp
      finally show ?thesis using False by simp
    next
      case False
      then show ?thesis by (auto simp: softmax_kernel_row Let_def)
    qed
  qed
  with False show ?thesis by simp
qed

lemma softmax_launch:
  "launch_softmax x batch_size size' j =
     (if j < batch_size * size'
      then max (exp (x j - row_max x (j div size') size')
                / (\<Sum>i<size'. exp (x (j div size' * size' + i) - row_max x (j div size') size')))
               (1 / 10 ^ 7)
      else x j)"
  unfolding launch_softmax_def launch_def using distinct_grid_threads refl by (rule schedule_softmax)

lemma launch_softmax_any_order:
  assumes "distinct ts" "set ts = set (grid_threads (batch_size, 1) (1, 1))"
  shows "fold (\<lambda>t x. softmax_kernel t x batch_size size') ts x = launch_softmax x batch_size size'"
proof
  fix j
  show "fold (\<lambda>t x. softmax_kernel t x batch_size size') ts x j = launch_softmax x batch_size size' j"
    using schedule_softmax[OF assms, where x = x and j = j and size' = size']
      softmax_launch[where x = x and j = j and size' = size' and batch_size = batch_size]
    by simp
qed

lemma launch_softmax_at:
  assumes "b < batch_size" "i < size'"
  shows "launch_softmax x batch_size size' (b * size' + i) =
     max (exp (x (b * size' + i) - row_max x b size')
          / (\<Sum>l<size'. exp (x (b * size' + l) - row_max x b size'))) (1 / 10 ^ 7)"
proof -
  have "b * size' + i < Suc b * size'" using assms by simp
  also have "\<dots> \<le> batch_size * size'" using assms by (intro mult_le_mono1) simp
  finally show ?thesis using assms by (simp add: softmax_launch)
qed

lemma row_max_shift:
  assumes "0 < size'" and "\<And>i. i < size' \<Longrightarrow> y (b * size' + i) = x (b * size' + i) + c"
  shows "row_max y b size' = row_max x b size' + c"
proof -
  have "fold (\<lambda>i max_val. max max_val (x (b * size' + i) + c)) [1..<n] (a + c) =
        fold (\<lambda>i max_val. max max_val (x (b * size' + i))) [1..<n] a + c" for n a
  proof (induction n)
    case 0
    show ?case by simp
  next
    case (Suc n)
    show ?case
    proof (cases "1 \<le> n")
      case True
      then have "[1..<Suc n] = [1..<n] @ [n]" by simp
      then show ?thesis using Suc by (simp add: max_def)
    next
      case False
      then show ?thesis by simp
    qed
  qed
  moreover have "fold (\<lambda>i max_val. max max_val (y (b * size' + i))) [1..<size'] a =
      fold (\<lambda>i max_val. max max_val (x (b * size' + i) + c)) [1..<size'] a" for a
    by (intro fold_cong) (simp_all add: assms(2))
  moreover have "y (b * size') = x (b * size') + c" using assms(2)[of 0] assms(1) by simp
  ultimately show ?thesis by (simp add: row_max_def)
qed

text \<open>
  C7: for every row of logits and every constant, the softmax kernel applied to the
  row with the constant added to every entry produces the same output row as on the
  original row. The constant may differ from row to row: \<open>c b\<close> is added to row \<open>b\<close>.
  Arithmetic is exact (real numbers).
\<close>

theorem softmax_shift_invariant:
  assumes "b < batch_size" and "i < size'"
  shows "launch_softmax (\<lambda>j. x j + c (j div size')) batch_size size' (b * size' + i) =
         launch_softmax x batch_size size' (b * size' + i)"
proof -
  have pos: "0 < size'" using assms by simp
  have cell: "(\<lambda>j. x j + c (j div size')) (b * size' + l) = x (b * size' + l) + c b" if "l < size'" for l
    using that by simp
  have m: "row_max (\<lambda>j. x j + c (j div size')) b size' = row_max x b size' + c b"
    using pos cell by (rule row_max_shift)
  have "(\<Sum>l<size'. exp ((\<lambda>j. x j + c (j div size')) (b * size' + l) - (row_max x b size' + c b))) =
        (\<Sum>l<size'. exp (x (b * size' + l) - row_max x b size'))"
    by (intro sum.cong) (simp_all add: cell)
  then show ?thesis using assms
    by (simp add: launch_softmax_at[OF assms] m)
qed

theorem softmax_shift_invariant_witness:
  "(0::nat) < 1 \<and> (1::nat) < 2
   \<and> launch_softmax (\<lambda>j. spike_logits j + (\<lambda>_. 5) (j div 2)) 1 2 (0 * 2 + 1) =
     launch_softmax spike_logits 1 2 (0 * 2 + 1)"
  using softmax_shift_invariant[where b = 0 and batch_size = 1 and i = 1 and size' = 2
      and x = spike_logits and c = "\<lambda>_. 5"]
  by simp


lemma exp_row_sum_pos:
  fixes h :: "nat \<Rightarrow> real"
  assumes "0 < n"
  shows "0 < (\<Sum>i<n. exp (h i))"
  using assms by (intro sum_pos) auto

lemma floored_quotients_sum:
  fixes e :: "nat \<Rightarrow> real"
  assumes S: "S = (\<Sum>i<n. e i)" "0 < S" and e: "\<And>i. i < n \<Longrightarrow> 0 \<le> e i" and f: "0 \<le> f"
  shows "1 \<le> (\<Sum>i<n. max (e i / S) f)" and "(\<Sum>i<n. max (e i / S) f) \<le> 1 + real n * f"
proof -
  have one: "(\<Sum>i<n. e i / S) = 1"
    using S by (simp add: sum_divide_distrib[symmetric])
  have "(\<Sum>i<n. e i / S) \<le> (\<Sum>i<n. max (e i / S) f)"
    by (intro sum_mono) simp
  then show "1 \<le> (\<Sum>i<n. max (e i / S) f)" using one by simp
  have "(\<Sum>i<n. max (e i / S) f) \<le> (\<Sum>i<n. e i / S + f)"
  proof (intro sum_mono)
    fix i assume "i \<in> {..<n}"
    then have "0 \<le> e i / S" using e S(2) by simp
    then show "max (e i / S) f \<le> e i / S + f" using f by simp
  qed
  also have "\<dots> = 1 + real n * f" using one by (simp add: sum.distrib)
  finally show "(\<Sum>i<n. max (e i / S) f) \<le> 1 + real n * f" .
qed

text \<open>
  C2, as amended: for every batch size and every \<open>size \<ge> 1\<close>, after the softmax kernel
  has run every entry of each row is at least \<open>1e-7\<close> and the entries of each row sum
  to at least \<open>1\<close> and at most \<open>1 + size * 1e-7\<close>; the sum is therefore within \<open>1e-4\<close>
  of \<open>1\<close> when \<open>size \<le> 1000\<close>. Arithmetic is exact (real numbers).
\<close>

theorem softmax_rows_floor_and_sum:
  assumes "0 < size'" and "b < batch_size"
  shows "(\<forall>i<size'. 1 / 10 ^ 7 \<le> launch_softmax x batch_size size' (b * size' + i))
       \<and> 1 \<le> row_sum (launch_softmax x batch_size size') b size'
       \<and> row_sum (launch_softmax x batch_size size') b size' \<le> 1 + real size' / 10 ^ 7
       \<and> (size' \<le> 1000 \<longrightarrow> \<bar>row_sum (launch_softmax x batch_size size') b size' - 1\<bar> \<le> 1 / 10 ^ 4)"
proof -
  define e where "e i = exp (x (b * size' + i) - row_max x b size')" for i
  define S where "S = (\<Sum>i<size'. e i)"
  have S: "0 < S" unfolding S_def e_def using assms(1) by (rule exp_row_sum_pos)
  have out: "launch_softmax x batch_size size' (b * size' + i) = max (e i / S) (1 / 10 ^ 7)"
    if "i < size'" for i
    using launch_softmax_at[OF assms(2) that, of x] by (simp add: e_def S_def)
  have rs: "row_sum (launch_softmax x batch_size size') b size' = (\<Sum>i<size'. max (e i / S) (1 / 10 ^ 7))"
    unfolding row_sum_def by (intro sum.cong) (simp_all add: out)
  have lo: "1 \<le> (\<Sum>i<size'. max (e i / S) (1 / 10 ^ 7))"
    and hi: "(\<Sum>i<size'. max (e i / S) (1 / 10 ^ 7)) \<le> 1 + real size' * (1 / 10 ^ 7)"
    using floored_quotients_sum[where S = S and n = size' and e = e and f = "1 / 10 ^ 7"] S
    by (simp_all add: S_def e_def)
  have floor: "\<forall>i<size'. 1 / 10 ^ 7 \<le> launch_softmax x batch_size size' (b * size' + i)"
    by (simp add: out)
  have tol: "\<bar>row_sum (launch_softmax x batch_size size') b size' - 1\<bar> \<le> 1 / 10 ^ 4" if "size' \<le> 1000"
  proof -
    have "real size' * (1 / 10 ^ 7) \<le> 1000 * (1 / 10 ^ 7)"
      using that by (intro mult_right_mono) simp_all
    then show ?thesis using lo hi by (simp add: rs)
  qed
  show ?thesis using floor lo hi tol by (simp add: rs)
qed

theorem softmax_rows_floor_and_sum_witness:
  "(0::nat) < 2 \<and> (0::nat) < 1 \<and> (2::nat) \<le> 1000
   \<and> 1 / 10 ^ 7 \<le> launch_softmax spike_logits 1 2 (0 * 2 + 1)
   \<and> 1 \<le> row_sum (launch_softmax spike_logits 1 2) 0 2
   \<and> row_sum (launch_softmax spike_logits 1 2) 0 2 \<le> 1 + real 2 / 10 ^ 7
   \<and> \<bar>row_sum (launch_softmax spike_logits 1 2) 0 2 - 1\<bar> \<le> 1 / 10 ^ 4"
  using softmax_rows_floor_and_sum[where size' = 2 and b = 0 and batch_size = 1 and x = spike_logits]
  by simp


text \<open>No entry of a softmax row exceeds \<open>1\<close>.\<close>

lemma launch_softmax_le_one:
  assumes "b < batch_size" and "i < size'"
  shows "launch_softmax x batch_size size' (b * size' + i) \<le> 1"
proof -
  define e where "e l = exp (x (b * size' + l) - row_max x b size')" for l
  have "e i \<le> (\<Sum>l<size'. e l)"
    using assms(2) by (intro member_le_sum) (simp_all add: e_def)
  moreover have "0 < (\<Sum>l<size'. e l)"
    unfolding e_def using assms(2) by (intro exp_row_sum_pos) simp
  ultimately have "e i / (\<Sum>l<size'. e l) \<le> 1" by simp
  then show ?thesis
    using launch_softmax_at[OF assms, of x] by (simp add: e_def)
qed

lemma fold_max_const:
  fixes a :: real
  assumes "\<And>i. i \<in> set xs \<Longrightarrow> h i \<le> a"
  shows "fold (\<lambda>i max_val. max max_val (h i)) xs a = a"
  using assms by (induction xs) (simp_all add: max_absorb1)

lemma row_max_spike: "row_max spike_logits 0 2001 = 0"
  unfolding row_max_def by (simp add: spike_logits_def fold_max_const)

lemma exp_neg_bound: "exp (- (10 ^ 9 :: real)) \<le> 1 / 10 ^ 9"
proof -
  have "(10 ^ 9 :: real) \<le> 1 + 10 ^ 9" by simp
  also have "\<dots> \<le> exp (10 ^ 9)" by (rule exp_ge_add_one_self)
  finally have "1 / exp (10 ^ 9 :: real) \<le> 1 / 10 ^ 9"
    by (intro divide_left_mono) simp_all
  then show ?thesis by (simp add: exp_minus inverse_eq_divide)
qed

text \<open>
  C2 as stated fails for long rows: the floor lifts every entry that is below
  \<open>1e-7\<close>, and in a row of \<open>2001\<close> logits with one entry \<open>10^9\<close> above the others the
  \<open>2000\<close> other entries are lifted to \<open>1e-7\<close> each, so that the row sums to more
  than \<open>1 + 1e-4\<close>.
\<close>

theorem softmax_row_sum_counterexample:
  "\<not> \<bar>row_sum (launch_softmax spike_logits 1 2001) 0 2001 - 1\<bar> \<le> 1 / 10 ^ 4"
proof -
  define eps :: real where "eps = exp (- (10 ^ 9))"
  define S :: real where "S = 1 + 2000 * eps"
  have eps: "0 < eps" "eps \<le> 1 / 10 ^ 9"
    using exp_neg_bound by (simp_all add: eps_def)
  have e: "exp (spike_logits (0 * 2001 + i) - row_max spike_logits 0 2001) = (if i = 0 then 1 else eps)"
    for i by (simp add: row_max_spike spike_logits_def eps_def)
  have sumS: "(\<Sum>l<(2001::nat). if l = 0 then 1 else eps) = S"
  proof -
    have "(\<Sum>l<Suc 2000. if l = 0 then 1 else eps) = 1 + (\<Sum>l<(2000::nat). eps)"
      by (subst sum.lessThan_Suc_shift) simp
    then show ?thesis unfolding S_def by simp
  qed
  have out: "launch_softmax spike_logits 1 2001 (0 * 2001 + i) =
      max ((if i = 0 then 1 else eps) / S) (1 / 10 ^ 7)" if "i < 2001" for i
    using launch_softmax_at[of 0 1 i 2001 spike_logits] that unfolding e sumS by simp
  have rs: "row_sum (launch_softmax spike_logits 1 2001) 0 2001 =
      (\<Sum>i<(2001::nat). max ((if i = 0 then 1 else eps) / S) (1 / 10 ^ 7))"
    unfolding row_sum_def
  proof (intro sum.cong refl)
    fix i :: nat assume "i \<in> {..<2001}"
    then have "i < 2001" by simp
    then show "launch_softmax spike_logits 1 2001 (0 * 2001 + i) =
        max ((if i = 0 then 1 else eps) / S) (1 / 10 ^ 7)" by (rule out)
  qed
  have "(\<Sum>i<(2001::nat). max ((if i = 0 then 1 else eps) / S) (1 / 10 ^ 7)) =
      (\<Sum>i<Suc 2000. max ((if i = 0 then 1 else eps) / S) (1 / 10 ^ 7))" by simp
  also have "\<dots> = max (1 / S) (1 / 10 ^ 7) + (\<Sum>i<(2000::nat). max (eps / S) (1 / 10 ^ 7))"
    by (subst sum.lessThan_Suc_shift) simp
  finally have "row_sum (launch_softmax spike_logits 1 2001) 0 2001 =
      max (1 / S) (1 / 10 ^ 7) + (\<Sum>i<(2000::nat). max (eps / S) (1 / 10 ^ 7))"
    unfolding rs .
  moreover have "1 / S \<le> max (1 / S) (1 / 10 ^ 7)" by simp
  moreover have "(\<Sum>i<(2000::nat). (1 / 10 ^ 7 :: real)) \<le> (\<Sum>i<(2000::nat). max (eps / S) (1 / 10 ^ 7))"
    by (intro sum_mono) simp
  ultimately have lower: "1 / S + 2000 / 10 ^ 7 \<le> row_sum (launch_softmax spike_logits 1 2001) 0 2001"
    by simp
  have "S \<le> 1 + 2 / 10 ^ 6" using eps by (simp add: S_def)
  moreover have "0 < S" using eps by (simp add: S_def)
  ultimately have "1 / (1 + 2 / 10 ^ 6) \<le> 1 / S"
    by (intro divide_left_mono) simp_all
  moreover have "1 + 1 / 10 ^ 4 < 1 / (1 + 2 / 10 ^ 6) + 2000 / (10 ^ 7 :: real)" by simp
  ultimately have "1 + 1 / 10 ^ 4 < row_sum (launch_softmax spike_logits 1 2001) 0 2001"
    using lower by linarith
  then show ?thesis by linarith
qed


section \<open>The cross-entropy loss\<close>

lemma fold_sub_sum:
  fixes h :: "nat \<Rightarrow> real"
  shows "fold (\<lambda>b total_loss. total_loss - h b) [0..<n] a = a - (\<Sum>b<n. h b)"
  by (induction n) simp_all

lemma cross_entropy_loss_sum:
  assumes "\<forall>b<batch_size. 0 \<le> labels b"
  shows "cross_entropy_loss output labels batch_size =
     - (\<Sum>b<batch_size. ln (max (output (b * OUTPUT_SIZE + nat (labels b))) (1 / 10 ^ 7)))
       / real batch_size"
proof -
  have idx: "nat (int b * int OUTPUT_SIZE + labels b) = b * OUTPUT_SIZE + nat (labels b)"
    if "b < batch_size" for b
    using assms that by (simp add: nat_add_distrib nat_mult_distrib)
  have "(\<Sum>b<batch_size. ln (max (output (nat (int b * int OUTPUT_SIZE + labels b))) (1 / 10 ^ 7))) =
      (\<Sum>b<batch_size. ln (max (output (b * OUTPUT_SIZE + nat (labels b))) (1 / 10 ^ 7)))"
    by (intro sum.cong refl) (simp add: idx)
  then show ?thesis
    by (simp add: cross_entropy_loss_def fold_sub_sum)
qed

text \<open>
  C3: for every batch of \<open>B \<ge> 1\<close> output rows and every label array with each label
  in \<open>[0, OUTPUT_SIZE)\<close>, the loss evaluator returns
  \<open>- (1 / B) * (\<Sum>b<B. ln (max (output[b, label[b]]) 1e-7))\<close>, the element \<open>[b, l]\<close> of
  the batch being at offset \<open>b * OUTPUT_SIZE + l\<close>. Arithmetic is exact (real numbers).
\<close>

theorem cross_entropy_loss_formula:
  assumes "0 < batch_size" and "\<forall>b<batch_size. 0 \<le> labels b \<and> labels b < int OUTPUT_SIZE"
  shows "cross_entropy_loss output labels batch_size =
     - (1 / real batch_size)
       * (\<Sum>b<batch_size. ln (max (output (b * OUTPUT_SIZE + nat (labels b))) (1 / 10 ^ 7)))"
  using assms by (simp add: cross_entropy_loss_sum)

theorem cross_entropy_loss_formula_witness:
  "(0::nat) < 1 \<and> (0::int) \<le> zero_labels 0 \<and> zero_labels 0 < int OUTPUT_SIZE
   \<and> cross_entropy_loss twos_output zero_labels 1 = - ln 2"
  using cross_entropy_loss_formula[of 1 zero_labels twos_output]
  by (simp add: zero_labels_def twos_output_def OUTPUT_SIZE_def)

text \<open>What \<^verbatim>\<open>forward\<close> returns, through the buffers between its launches.\<close>

lemma forward_parts:
  "fst (forward nn d_input d_hidden d_output batch_size) = hidden_act nn d_input d_hidden batch_size"
  "snd (forward nn d_input d_hidden d_output batch_size) =
     launch_softmax (output_pre nn (hidden_act nn d_input d_hidden batch_size) d_output batch_size)
       batch_size OUTPUT_SIZE"
  by (simp_all add: forward_def hidden_act_def hidden_pre_def output_pre_def launch_softmax_def
      Let_def)

lemma abs_ln_le:
  fixes p :: real
  assumes "1 / 2 \<le> p"
  shows "\<bar>ln p\<bar> \<le> 2 * \<bar>p - 1\<bar>"
proof (cases "1 \<le> p")
  case True
  then have "0 \<le> ln p" "ln p \<le> p - 1" by (simp_all add: ln_le_minus_one)
  with True show ?thesis by simp
next
  case False
  with assms have p: "0 < p" "p < 1" by simp_all
  then have "ln (1 / p) \<le> 1 / p - 1" by (intro ln_le_minus_one) simp
  then have "- ln p \<le> (1 - p) / p" using p by (simp add: ln_div diff_divide_distrib)
  also have "\<dots> \<le> (1 - p) / (1 / 2)" using p assms by (intro divide_left_mono) simp_all
  finally have "- ln p \<le> 2 * (1 - p)" by simp
  moreover have "ln p < 0" using p by simp
  ultimately show ?thesis using p by simp
qed

text \<open>
  C8: for every label array with labels in \<open>[0, OUTPUT_SIZE)\<close> and every output batch
  of probabilities, the value the loss evaluator returns is non-negative, the entries
  being floored at \<open>1e-7\<close> inside the reduction. A batch of probabilities is a buffer
  whose true-class entries are at most \<open>1\<close>; every buffer the softmax kernel leaves is
  one, and so is every output of \<^verbatim>\<open>forward\<close>, which is what the evaluator receives.
  The loss approaches \<open>0\<close> as the true-class probabilities approach \<open>1\<close>: for every
  \<open>\<epsilon> > 0\<close> there is a \<open>\<delta> > 0\<close> such that the loss is within \<open>\<epsilon>\<close> of \<open>0\<close> on every
  output buffer whose true-class entries are all within \<open>\<delta>\<close> of \<open>1\<close>. Arithmetic is
  exact (real numbers).
\<close>

theorem cross_entropy_loss_nonneg:
  assumes "0 < batch_size" and "\<forall>b<batch_size. 0 \<le> labels b \<and> labels b < int OUTPUT_SIZE"
  shows "((\<forall>b<batch_size. output (b * OUTPUT_SIZE + nat (labels b)) \<le> 1)
            \<longrightarrow> 0 \<le> cross_entropy_loss output labels batch_size)
       \<and> 0 \<le> cross_entropy_loss (launch_softmax x batch_size OUTPUT_SIZE) labels batch_size
       \<and> 0 \<le> cross_entropy_loss (snd (forward nn d_input d_hidden d_output batch_size))
               labels batch_size
       \<and> (\<forall>\<epsilon>>0. \<exists>\<delta>>0. \<forall>out.
            (\<forall>b<batch_size. \<bar>out (b * OUTPUT_SIZE + nat (labels b)) - 1\<bar> < \<delta>)
              \<longrightarrow> \<bar>cross_entropy_loss out labels batch_size\<bar> < \<epsilon>)"
proof (intro conjI impI allI)
  have nonneg: "0 \<le> cross_entropy_loss p labels batch_size"
    if le: "\<forall>b<batch_size. p (b * OUTPUT_SIZE + nat (labels b)) \<le> 1" for p
  proof -
    have "(\<Sum>b<batch_size. ln (max (p (b * OUTPUT_SIZE + nat (labels b))) (1 / 10 ^ 7))) \<le> 0"
    proof (intro sum_nonpos)
      fix b assume "b \<in> {..<batch_size}"
      with le have "max (p (b * OUTPUT_SIZE + nat (labels b))) (1 / 10 ^ 7) \<le> 1" by simp
      moreover have "0 < max (p (b * OUTPUT_SIZE + nat (labels b))) (1 / 10 ^ 7 :: real)"
        by (simp add: less_max_iff_disj)
      ultimately show "ln (max (p (b * OUTPUT_SIZE + nat (labels b))) (1 / 10 ^ 7)) \<le> 0"
        by simp
    qed
    then show ?thesis
      using assms by (simp add: cross_entropy_loss_sum divide_le_0_iff)
  qed
  have softmax: "\<forall>b<batch_size. launch_softmax y batch_size OUTPUT_SIZE
      (b * OUTPUT_SIZE + nat (labels b)) \<le> 1" for y
  proof (intro allI impI)
    fix b assume b: "b < batch_size"
    with assms(2) have "nat (labels b) < OUTPUT_SIZE" by auto
    with b show "launch_softmax y batch_size OUTPUT_SIZE (b * OUTPUT_SIZE + nat (labels b)) \<le> 1"
      by (rule launch_softmax_le_one)
  qed
  show "0 \<le> cross_entropy_loss (launch_softmax x batch_size OUTPUT_SIZE) labels batch_size"
    using softmax by (rule nonneg)
  show "0 \<le> cross_entropy_loss (snd (forward nn d_input d_hidden d_output batch_size))
      labels batch_size"
    unfolding forward_parts using softmax by (rule nonneg)
  assume "\<forall>b<batch_size. output (b * OUTPUT_SIZE + nat (labels b)) \<le> 1"
  then show "0 \<le> cross_entropy_loss output labels batch_size" by (rule nonneg)
next
  fix \<epsilon> :: real assume eps: "0 < \<epsilon>"
  define \<delta> where "\<delta> = min (1 / 2) (\<epsilon> / 2)"
  have d: "0 < \<delta>" "\<delta> \<le> 1 / 2" "2 * \<delta> \<le> \<epsilon>" using eps by (simp_all add: \<delta>_def)
  have "\<bar>cross_entropy_loss out labels batch_size\<bar> < \<epsilon>"
    if close: "\<forall>b<batch_size. \<bar>out (b * OUTPUT_SIZE + nat (labels b)) - 1\<bar> < \<delta>" for out
  proof -
    have each: "\<bar>ln (max (out (b * OUTPUT_SIZE + nat (labels b))) (1 / 10 ^ 7))\<bar> < \<epsilon>"
      if "b < batch_size" for b
    proof -
      let ?p = "out (b * OUTPUT_SIZE + nat (labels b))"
      from close that have c: "\<bar>?p - 1\<bar> < \<delta>" by simp
      with d have half: "1 / 2 \<le> ?p" by linarith
      then have "max ?p (1 / 10 ^ 7) = ?p" by simp
      moreover have "\<bar>ln ?p\<bar> \<le> 2 * \<bar>?p - 1\<bar>" using half by (rule abs_ln_le)
      ultimately show ?thesis using c d by simp
    qed
    have "\<bar>\<Sum>b<batch_size. ln (max (out (b * OUTPUT_SIZE + nat (labels b))) (1 / 10 ^ 7))\<bar>
        \<le> (\<Sum>b<batch_size. \<bar>ln (max (out (b * OUTPUT_SIZE + nat (labels b))) (1 / 10 ^ 7))\<bar>)"
      by (rule sum_abs)
    also have "\<dots> < (\<Sum>b<batch_size. \<epsilon>)"
    proof (intro sum_strict_mono)
      show "finite {..<batch_size}" by simp
      show "{..<batch_size} \<noteq> {}" using assms(1) by auto
      fix b assume "b \<in> {..<batch_size}"
      then have "b < batch_size" by simp
      then show "\<bar>ln (max (out (b * OUTPUT_SIZE + nat (labels b))) (1 / 10 ^ 7))\<bar> < \<epsilon>"
        by (rule each)
    qed
    finally have "\<bar>\<Sum>b<batch_size. ln (max (out (b * OUTPUT_SIZE + nat (labels b))) (1 / 10 ^ 7))\<bar>
        < real batch_size * \<epsilon>" by simp
    then have "\<bar>\<Sum>b<batch_size. ln (max (out (b * OUTPUT_SIZE + nat (labels b))) (1 / 10 ^ 7))\<bar>
        / real batch_size < \<epsilon>"
      using assms(1) by (simp add: pos_divide_less_eq mult.commute)
    then show ?thesis using assms by (simp add: cross_entropy_loss_sum)
  qed
  with d(1) show "\<exists>\<delta>>0. \<forall>out.
            (\<forall>b<batch_size. \<bar>out (b * OUTPUT_SIZE + nat (labels b)) - 1\<bar> < \<delta>)
              \<longrightarrow> \<bar>cross_entropy_loss out labels batch_size\<bar> < \<epsilon>"
    by blast
qed


theorem cross_entropy_loss_nonneg_witness:
  "(0::nat) < 2
   \<and> 0 \<le> cross_entropy_loss ones_output zero_labels 2
   \<and> 0 \<le> cross_entropy_loss (launch_softmax spike_logits 2 OUTPUT_SIZE) zero_labels 2
   \<and> 0 \<le> cross_entropy_loss (snd (forward example_network spike_logits ones_output ones_output 2))
           zero_labels 2
   \<and> (\<exists>\<delta>>0. \<forall>out. (\<forall>b<2. \<bar>out (b * OUTPUT_SIZE + nat (zero_labels b)) - 1\<bar> < \<delta>)
          \<longrightarrow> \<bar>cross_entropy_loss out zero_labels 2\<bar> < 1)"
proof -
  have h: "\<forall>b<2. 0 \<le> zero_labels b \<and> zero_labels b < int OUTPUT_SIZE"
    by (simp add: zero_labels_def OUTPUT_SIZE_def)
  have pos: "(0::nat) < 2" by simp
  note t = cross_entropy_loss_nonneg[OF pos h, of ones_output spike_logits example_network
      spike_logits ones_output ones_output]
  have a: "0 \<le> cross_entropy_loss ones_output zero_labels 2"
    using t by (simp add: ones_output_def)
  have s1: "0 \<le> cross_entropy_loss (launch_softmax spike_logits 2 OUTPUT_SIZE) zero_labels 2"
    using t by (rule conjunct1[OF conjunct2])
  have s2: "0 \<le> cross_entropy_loss (snd (forward example_network spike_logits ones_output ones_output 2))
           zero_labels 2"
    using t by (rule conjunct1[OF conjunct2[OF conjunct2]])
  have d: "\<exists>\<delta>>0. \<forall>out. (\<forall>b<2. \<bar>out (b * OUTPUT_SIZE + nat (zero_labels b)) - 1\<bar> < \<delta>)
          \<longrightarrow> \<bar>cross_entropy_loss out zero_labels 2\<bar> < 1"
    using t by (metis zero_less_one)
  show ?thesis by (intro conjI pos a s1 s2 d)
qed


section \<open>The forward pipeline on a zero batch\<close>

lemma bias_add_launch:
  "launch (g, 1) (b, 1) (\<lambda>t x. bias_add_kernel t x bias batch_size size') x j =
     (if j < batch_size * size' \<and> j < g * b then x j + bias (j mod size') else x j)"
  by (rule launch_1d[where f = "\<lambda>idx v. v + bias (idx mod size')"])
     (simp add: bias_add_kernel_alt)

lemma gelu_launch:
  "launch (g, 1) (b, 1) (\<lambda>t x. gelu_kernel t x size') x j =
     (if j < size' \<and> j < g * b
      then x j * (0.5 * (1 + tanh (0.7978845608 * (x j + 0.044715 * x j * x j * x j))))
      else x j)"
  by (rule launch_1d[where f = "\<lambda>idx v. v * (0.5 * (1 + tanh (0.7978845608 * (v + 0.044715 * v * v * v))))"])
     (simp add: gelu_kernel_def Let_def)

lemma matmul_a_b_zero:
  fixes A B C :: "real buf"
  assumes zero: "\<And>i. i < m * n \<Longrightarrow> A i = 0"
    and j: "j < m * k" and cover: "k \<le> fst g * fst b" "m \<le> snd g * snd b"
  shows "launch g b (\<lambda>t C. matmul_a_b_kernel t A B C m n k) C j = 0"
proof -
  from j have k: "0 < k" by (auto intro: gr0I)
  then have r: "j div k < m" using j by (simp add: less_mult_imp_div_less)
  have "A (j div k * n + i) = 0" if "i < n" for i
  proof -
    have "j div k * n + i < Suc (j div k) * n" using that by simp
    also have "\<dots> \<le> m * n" using r by (intro mult_le_mono1) simp
    finally show ?thesis by (rule zero)
  qed
  then have "(\<Sum>i<n. A (j div k * n + i) * B (i * k + j mod k)) = 0"
    by (intro sum.neutral) simp
  moreover have "j div k < snd g * snd b" "j mod k < fst g * fst b"
    using r cover k by (auto intro: less_le_trans[OF mod_less_divisor])
  ultimately show ?thesis using j by (simp add: matmul_a_b_launch fold_add_sum)
qed

lemma hidden_pre_zero:
  assumes "\<And>j. j < batch_size * INPUT_SIZE \<Longrightarrow> d_input j = 0"
    and "\<And>i. i < HIDDEN_SIZE \<Longrightarrow> bias1 nn i = 0"
    and "h < batch_size * HIDDEN_SIZE"
  shows "hidden_pre nn d_input d_hidden batch_size h = 0"
proof -
  define g where "g = ((HIDDEN_SIZE + 32 - 1) div 32, (batch_size + 32 - 1) div 32)"
  define H where "H = launch g (32, 32)
      (\<lambda>t C. matmul_a_b_kernel t d_input (weights1 nn) C batch_size INPUT_SIZE HIDDEN_SIZE) d_hidden"
  have "H h = 0"
    unfolding H_def using assms(1,3)
    by (rule matmul_a_b_zero) (simp_all add: g_def HIDDEN_SIZE_def)
  moreover have "hidden_pre nn d_input d_hidden batch_size =
      launch ((batch_size * HIDDEN_SIZE + 255) div 256, 1) (256, 1)
        (\<lambda>t x. bias_add_kernel t x (bias1 nn) batch_size HIDDEN_SIZE) H"
    by (simp add: hidden_pre_def H_def g_def Let_def)
  moreover have "h mod HIDDEN_SIZE < HIDDEN_SIZE" by (simp add: HIDDEN_SIZE_def)
  moreover note bias_add_launch[of "(batch_size * HIDDEN_SIZE + 255) div 256" 256 "bias1 nn"
      batch_size HIDDEN_SIZE H h]
  ultimately show ?thesis using assms(2,3) by simp
qed

lemma hidden_act_zero:
  assumes "\<And>j. j < batch_size * INPUT_SIZE \<Longrightarrow> d_input j = 0"
    and "\<And>i. i < HIDDEN_SIZE \<Longrightarrow> bias1 nn i = 0"
    and "h < batch_size * HIDDEN_SIZE"
  shows "hidden_act nn d_input d_hidden batch_size h = 0"
  using hidden_pre_zero[OF assms, where d_hidden = d_hidden] assms(3)
    gelu_launch[of "(batch_size * HIDDEN_SIZE + 255) div 256" 256 "batch_size * HIDDEN_SIZE"
      "hidden_pre nn d_input d_hidden batch_size" h]
  by (simp add: hidden_act_def)

lemma output_pre_zero:
  assumes "\<And>j. j < batch_size * HIDDEN_SIZE \<Longrightarrow> d_hidden j = 0"
    and "\<And>i. i < OUTPUT_SIZE \<Longrightarrow> bias2 nn i = 0"
    and "l < batch_size * OUTPUT_SIZE"
  shows "output_pre nn d_hidden d_output batch_size l = 0"
proof -
  define g where "g = ((OUTPUT_SIZE + 32 - 1) div 32, (batch_size + 32 - 1) div 32)"
  define H where "H = launch g (32, 32)
      (\<lambda>t C. matmul_a_b_kernel t d_hidden (weights2 nn) C batch_size HIDDEN_SIZE OUTPUT_SIZE) d_output"
  have "H l = 0"
    unfolding H_def using assms(1,3)
    by (rule matmul_a_b_zero) (simp_all add: g_def OUTPUT_SIZE_def)
  moreover have "output_pre nn d_hidden d_output batch_size =
      launch ((batch_size * OUTPUT_SIZE + 255) div 256, 1) (256, 1)
        (\<lambda>t x. bias_add_kernel t x (bias2 nn) batch_size OUTPUT_SIZE) H"
    by (simp add: output_pre_def H_def g_def Let_def)
  moreover have "l mod OUTPUT_SIZE < OUTPUT_SIZE" by (simp add: OUTPUT_SIZE_def)
  moreover note bias_add_launch[of "(batch_size * OUTPUT_SIZE + 255) div 256" 256 "bias2 nn"
      batch_size OUTPUT_SIZE H l]
  ultimately show ?thesis using assms(2,3) by simp
qed

lemma softmax_zero_row:
  assumes "\<And>j. j < batch_size * size' \<Longrightarrow> x j = 0" and "j < batch_size * size'"
    and "size' \<le> 10 ^ 7"
  shows "launch_softmax x batch_size size' j = 1 / real size'"
proof -
  from assms(2) have pos: "0 < size'" by (auto intro: gr0I)
  define b where "b = j div size'"
  have b: "b < batch_size" using assms(2) pos by (simp add: b_def less_mult_imp_div_less)
  have cell: "x (b * size' + i) = (\<lambda>_. 0) (b * size' + i)" if "i < size'" for i
  proof -
    have "b * size' + i < Suc b * size'" using that by simp
    also have "\<dots> \<le> batch_size * size'" using b by (intro mult_le_mono1) simp
    finally show ?thesis by (simp add: assms(1))
  qed
  have "row_max x b size' = row_max (\<lambda>_. 0) b size'"
    using pos cell by (rule row_max_cong)
  also have "\<dots> = 0" by (simp add: row_max_def fold_max_const)
  finally have m: "row_max x b size' = 0" .
  have s: "(\<Sum>i<size'. exp (x (b * size' + i) - row_max x b size')) = real size'"
    using cell by (simp add: m)
  have "real size' \<le> real (10 ^ 7)" using assms(3) by (rule of_nat_mono)
  then have "real size' \<le> 10 ^ 7" by simp
  then have floor: "1 / 10 ^ 7 \<le> 1 / real size'"
    using pos by (intro divide_left_mono) simp_all
  have "launch_softmax x batch_size size' j =
      max (exp (x j - row_max x b size')
           / (\<Sum>i<size'. exp (x (b * size' + i) - row_max x b size'))) (1 / 10 ^ 7)"
    using assms(2) by (simp add: softmax_launch b_def)
  also have "\<dots> = max (1 / real size') (1 / 10 ^ 7)"
    unfolding s by (simp add: m assms(1,2))
  also have "\<dots> = 1 / real size'" using floor by (rule max_absorb1)
  finally show ?thesis .
qed


text \<open>
  C5: for a batch of \<open>32\<close> all-zero input rows, zero bias vectors and arbitrary weight
  matrices, the forward pipeline yields hidden pre-activations \<open>0\<close>, activation outputs
  \<open>0\<close> (the hidden buffer \<^verbatim>\<open>forward\<close> returns), output logits \<open>0\<close> and a softmax
  output of \<open>1 / OUTPUT_SIZE = 0.1\<close> in every one of the \<open>10\<close> positions of every row,
  whatever the hidden and output buffers held before. Arithmetic is exact (real
  numbers), so that the weights are finite values.
\<close>

theorem forward_zero_batch:
  assumes "\<forall>j<BATCH_SIZE * INPUT_SIZE. d_input j = 0"
    and "\<forall>i<HIDDEN_SIZE. bias1 nn i = 0" and "\<forall>i<OUTPUT_SIZE. bias2 nn i = 0"
    and "h < BATCH_SIZE * HIDDEN_SIZE" and "l < BATCH_SIZE * OUTPUT_SIZE"
  shows "hidden_pre nn d_input d_hidden BATCH_SIZE h = 0
       \<and> hidden_act nn d_input d_hidden BATCH_SIZE h = 0
       \<and> fst (forward nn d_input d_hidden d_output BATCH_SIZE) h = 0
       \<and> output_pre nn (hidden_act nn d_input d_hidden BATCH_SIZE) d_output BATCH_SIZE l = 0
       \<and> snd (forward nn d_input d_hidden d_output BATCH_SIZE) l = 1 / real OUTPUT_SIZE
       \<and> snd (forward nn d_input d_hidden d_output BATCH_SIZE) l = 1 / 10"
proof -
  have pre: "hidden_pre nn d_input d_hidden BATCH_SIZE h = 0" if "h < BATCH_SIZE * HIDDEN_SIZE" for h
    using assms(1,2) that by (intro hidden_pre_zero) simp_all
  have act: "hidden_act nn d_input d_hidden BATCH_SIZE h = 0" if "h < BATCH_SIZE * HIDDEN_SIZE" for h
    using assms(1,2) that by (intro hidden_act_zero) simp_all
  have logits: "output_pre nn (hidden_act nn d_input d_hidden BATCH_SIZE) d_output BATCH_SIZE l = 0"
    if "l < BATCH_SIZE * OUTPUT_SIZE" for l
    using assms(3) that act by (intro output_pre_zero) simp_all
  have "launch_softmax (output_pre nn (hidden_act nn d_input d_hidden BATCH_SIZE) d_output BATCH_SIZE)
      BATCH_SIZE OUTPUT_SIZE l = 1 / real OUTPUT_SIZE"
    using logits assms(5) by (intro softmax_zero_row) (simp_all add: OUTPUT_SIZE_def)
  then have out: "snd (forward nn d_input d_hidden d_output BATCH_SIZE) l = 1 / real OUTPUT_SIZE"
    by (simp add: forward_parts)
  then have "snd (forward nn d_input d_hidden d_output BATCH_SIZE) l = 1 / 10"
    by (simp add: OUTPUT_SIZE_def)
  with out pre act logits assms(4,5) show ?thesis by (simp add: forward_parts)
qed

theorem forward_zero_batch_witness:
  "(100000::nat) < BATCH_SIZE * HIDDEN_SIZE \<and> (319::nat) < BATCH_SIZE * OUTPUT_SIZE
   \<and> hidden_pre example_network (\<lambda>_. 0) (\<lambda>_. 7) BATCH_SIZE 100000 = 0
   \<and> fst (forward example_network (\<lambda>_. 0) (\<lambda>_. 7) (\<lambda>_. 7) BATCH_SIZE) 100000 = 0
   \<and> output_pre example_network (hidden_act example_network (\<lambda>_. 0) (\<lambda>_. 7) BATCH_SIZE) (\<lambda>_. 7)
        BATCH_SIZE 319 = 0
   \<and> snd (forward example_network (\<lambda>_. 0) (\<lambda>_. 7) (\<lambda>_. 7) BATCH_SIZE) 319 = 1 / 10"
proof -
  have b: "\<forall>i<HIDDEN_SIZE. bias1 example_network i = 0" "\<forall>i<OUTPUT_SIZE. bias2 example_network i = 0"
    by (simp_all add: example_network_def)
  have i: "\<forall>j<BATCH_SIZE * INPUT_SIZE. (\<lambda>_. 0 :: real) j = 0" by simp
  have h: "(100000::nat) < BATCH_SIZE * HIDDEN_SIZE" "(319::nat) < BATCH_SIZE * OUTPUT_SIZE"
    by (simp_all add: BATCH_SIZE_def HIDDEN_SIZE_def OUTPUT_SIZE_def)
  from forward_zero_batch[OF i b h, of "\<lambda>_. 7" "\<lambda>_. 7"] h show ?thesis by blast
qed


section \<open>The kernels on small inputs\<close>

text \<open>
  The definitions compute. With \<open>A = [[1, 2], [3, 4]]\<close> and \<open>B = [[5, 6], [7, 8]]\<close>:
  \<open>(A B)[1, 1] = 50\<close>, \<open>(A B\<^sup>T)[0, 1] = 23\<close> and \<open>(A\<^sup>T B)[0, 1] = 30\<close>; the bias
  \<open>[1, 2]\<close> added to two rows of zeros; the softmax of a row of two zeros; the loss of
  a batch whose true-class entries are \<open>1\<close>.
\<close>

lemma matmul_a_b_runs:
  "launch (1, 1) (2, 2) (\<lambda>t C. matmul_a_b_kernel t (\<lambda>i. int i + 1) (\<lambda>i. int i + 5) C 2 2 2)
     (\<lambda>_. 100) 3 = 50"
  by (simp add: launch_def grid_threads_def mk_thread_def matmul_a_b_kernel_def upt_rec numeral_2_eq_2)

lemma bias_add_runs:
  "launch (1, 1) (4, 1) (\<lambda>t x. bias_add_kernel t x (\<lambda>i. int i + 1) 2 2) (\<lambda>_. 0) 3 = 2"
  by (simp add: launch_def grid_threads_def mk_thread_def bias_add_kernel_def upt_rec)

lemma softmax_runs:
  "launch_softmax (\<lambda>_. 0) 1 2 1 = 1 / 2"
  by (simp add: launch_softmax_def launch_def grid_threads_def mk_thread_def softmax_kernel_def upt_rec numeral_2_eq_2)

lemma cross_entropy_loss_runs:
  "cross_entropy_loss ones_output zero_labels 2 = 0"
  by (simp add: cross_entropy_loss_def ones_output_def zero_labels_def upt_rec numeral_2_eq_2)

lemma transposed_runs:
  "launch (1, 1) (2, 2) (\<lambda>t C. matmul_a_bt_kernel t (\<lambda>i. int i + 1) (\<lambda>i. int i + 5) C 2 2 2)
     (\<lambda>_. 100) 1 = 23"
  "launch (1, 1) (2, 2) (\<lambda>t C. matmul_at_b_kernel t (\<lambda>i. int i + 1) (\<lambda>i. int i + 5) C 2 2 2)
     (\<lambda>_. 100) 1 = 30"
  by (simp_all add: launch_def grid_threads_def mk_thread_def matmul_a_bt_kernel_def
      matmul_at_b_kernel_def upt_rec numeral_2_eq_2)


end
